theory Spec2Isabelle
  imports Main "HOL-Library.Word" "HOL-Library.Sublist"
begin

unbundle bit_operations_syntax

section \<open>Arena allocator with markers: the data model\<close>

text \<open>
  The allocator of \<^verbatim>\<open>src/c/arena.h\<close> and \<^verbatim>\<open>src/c/arena.c\<close>. The single-header
  variant \<^verbatim>\<open>src/arena.h\<close> (without \<^verbatim>\<open>arena_realloc\<close>) and the C++ class of
  \<^verbatim>\<open>src/cpp\<close> (with a constructor of its own) are not what is modelled here.

  \<^item> \<^verbatim>\<open>size_t\<close> is a 64-bit word: \<open>+\<close>, \<open>-\<close>, \<open>*\<close> wrap, comparisons are unsigned.
  \<^item> A \<^verbatim>\<open>uint8_t *\<close> is an address of a flat 64-bit address space, as
    \<^verbatim>\<open>arena_realloc\<close> assumes when it compares one pointer with the spans of all
    blocks; pointer arithmetic is arithmetic on addresses. \<^verbatim>\<open>NULL\<close> is address 0.
  \<^item> One \<^verbatim>\<open>Arena_t\<close> node is a \<open>block\<close>: its three buffer pointers. The chain that
    \<^verbatim>\<open>next\<close> links is a list: the root and the nodes after it. The nodes are owned,
    unshared and acyclic, so the list loses nothing.
  \<^item> The marker fields matter on the root only (every other node has
    \<^verbatim>\<open>markers = NULL\<close>, \<^verbatim>\<open>marker_count = marker_cap = 0\<close>); they are fields of the
    arena. \<open>markers\<close> holds the entries \<^verbatim>\<open>markers[0 .. marker_count)\<close>, bottom first.
  \<^item> \<^verbatim>\<open>malloc\<close> and \<^verbatim>\<open>realloc\<close> of the C library are the environment: what they
    answer during a call is an argument of the call (\<open>heap_reply\<close>).
  \<^item> Buffer contents are a \<open>memory\<close>, a function from addresses to bytes.
\<close>

type_synonym size_t = "64 word"
type_synonym addr = "64 word"
type_synonym byte = "8 word"
type_synonym memory = "addr \<Rightarrow> byte"

abbreviation NULL :: addr where
  "NULL \<equiv> 0"

definition ARENA_DEFAULT_SIZE :: size_t where
  "ARENA_DEFAULT_SIZE = 1024 * 1024"

definition ARENA_INITIAL_MARKER_CAP :: size_t where
  "ARENA_INITIAL_MARKER_CAP = 16"

definition ARENA_ALIGNMENT :: size_t where
  "ARENA_ALIGNMENT = 8"

record block =
  base :: addr
  bump :: addr
  end_p :: addr

record arena =
  root :: block
  rest :: "block list"
  markers :: "size_t list"
  marker_cap :: size_t

text \<open>
  What the C library answers during one call: whether \<^verbatim>\<open>malloc(sizeof(Arena_t))\<close>
  gave a node, the address \<^verbatim>\<open>malloc\<close> gave for the buffer (\<open>NULL\<close> when it failed),
  and whether the marker array could be obtained (\<^verbatim>\<open>malloc\<close> in \<^verbatim>\<open>arena_create\<close>,
  \<^verbatim>\<open>realloc\<close> in \<^verbatim>\<open>arena_push_marker\<close>).
\<close>

record heap_reply =
  node_ok :: bool
  buf :: addr
  marks_ok :: bool

section \<open>Helpers of arena.h\<close>

definition align_up :: "size_t \<Rightarrow> size_t \<Rightarrow> size_t" where
  "align_up n align = (n + align - 1) AND NOT (align - 1)"

fun get_last_block :: "block \<Rightarrow> block list \<Rightarrow> block" where
  "get_last_block cur [] = cur"
| "get_last_block cur (n # ns) = get_last_block n ns"

fun position_loop :: "size_t \<Rightarrow> block \<Rightarrow> block list \<Rightarrow> size_t" where
  "position_loop pos cur [] = pos + (bump cur - base cur)"
| "position_loop pos cur (n # ns) = position_loop (pos + (end_p cur - base cur)) n ns"

definition get_current_position :: "arena \<Rightarrow> size_t" where
  "get_current_position a = position_loop 0 (root a) (rest a)"

section \<open>The operations of arena.c\<close>

definition arena_create :: "heap_reply \<Rightarrow> size_t \<Rightarrow> arena option" where
  "arena_create h initial_size0 =
     (let initial_size = (if initial_size0 = 0 then ARENA_DEFAULT_SIZE else initial_size0) in
      if \<not> node_ok h then None
      else if buf h = NULL then None
      else if \<not> marks_ok h then None
      else Some \<lparr>root = \<lparr>base = buf h, bump = buf h, end_p = buf h + initial_size\<rparr>,
                 rest = [], markers = [], marker_cap = ARENA_INITIAL_MARKER_CAP\<rparr>)"

text \<open>The size \<^verbatim>\<open>arena_alloc\<close> asks for when it chains a new block.\<close>

definition new_block_size :: "size_t \<Rightarrow> size_t \<Rightarrow> size_t" where
  "new_block_size prev_size bytes =
     (let new_size = prev_size * 2;
          new_size = (if new_size < ARENA_DEFAULT_SIZE then ARENA_DEFAULT_SIZE else new_size);
          new_size = (if new_size < bytes then bytes else new_size)
      in new_size)"

text \<open>Writing through \<^verbatim>\<open>last\<close>: the last node of the chain is replaced.\<close>

definition set_last_block :: "arena \<Rightarrow> block \<Rightarrow> arena" where
  "set_last_block a b =
     (if rest a = [] then a\<lparr>root := b\<rparr> else a\<lparr>rest := butlast (rest a) @ [b]\<rparr>)"

definition arena_alloc :: "heap_reply \<Rightarrow> arena \<Rightarrow> size_t \<Rightarrow> addr \<times> arena" where
  "arena_alloc h a bytes0 =
     (if bytes0 = 0 then (NULL, a)
      else
        let bytes = align_up bytes0 ARENA_ALIGNMENT;
            last = get_last_block (root a) (rest a)
        in if bump last + bytes > end_p last then
             let prev_size = end_p last - base last;
                 new_size = new_block_size prev_size bytes
             in if \<not> node_ok h then (NULL, a)
                else if buf h = NULL then (NULL, a)
                else
                  let new_arena = \<lparr>base = buf h, bump = buf h, end_p = buf h + new_size\<rparr>
                  in (bump new_arena,
                      a\<lparr>rest := rest a @ [new_arena\<lparr>bump := bump new_arena + bytes\<rparr>]\<rparr>)
           else (bump last, set_last_block a (last\<lparr>bump := bump last + bytes\<rparr>)))"

definition memset :: "memory \<Rightarrow> addr \<Rightarrow> byte \<Rightarrow> size_t \<Rightarrow> memory" where
  "memset m p v n = (\<lambda>x. if x - p < n then v else m x)"

text \<open>
  \<^verbatim>\<open>memcpy\<close> copies byte by byte, lowest address first; the C library leaves the
  result open when the two regions overlap.
\<close>

fun copy_bytes :: "nat \<Rightarrow> memory \<Rightarrow> addr \<Rightarrow> addr \<Rightarrow> memory" where
  "copy_bytes 0 m dst src = m"
| "copy_bytes (Suc k) m dst src = copy_bytes k (m(dst := m src)) (dst + 1) (src + 1)"

definition memcpy :: "memory \<Rightarrow> addr \<Rightarrow> addr \<Rightarrow> size_t \<Rightarrow> memory" where
  "memcpy m dst src n = copy_bytes (unat n) m dst src"

fun store_bytes :: "memory \<Rightarrow> addr \<Rightarrow> byte list \<Rightarrow> memory" where
  "store_bytes m p [] = m"
| "store_bytes m p (x # xs) = store_bytes (m(p := x)) (p + 1) xs"

definition arena_calloc ::
  "heap_reply \<Rightarrow> arena \<Rightarrow> memory \<Rightarrow> size_t \<Rightarrow> size_t \<Rightarrow> addr \<times> arena \<times> memory" where
  "arena_calloc h a m num sz =
     (let total = num * sz;
          (ptr, a') = arena_alloc h a total
      in (ptr, a', if ptr \<noteq> NULL then memset m ptr 0 total else m))"

text \<open>
  The search of \<^verbatim>\<open>arena_realloc\<close> for the block that holds \<open>ptr\<close>. It answers
  \<open>Some\<close> of the chain with that block resized in place, or \<open>None\<close> when the loop
  leaves without returning (no block holds \<open>ptr\<close>, \<open>ptr\<close> is not the last
  allocation of its block, or the block has no room).
\<close>

fun realloc_walk :: "addr \<Rightarrow> size_t \<Rightarrow> size_t \<Rightarrow> block list \<Rightarrow> block list option" where
  "realloc_walk ptr old_size new_size [] = None"
| "realloc_walk ptr old_size new_size (cur # ns) =
     (if ptr \<ge> base cur \<and> ptr < end_p cur then
        (if ptr + old_size = bump cur then
           (let extra_needed = (if new_size > old_size then new_size - old_size else 0) in
            if bump cur + extra_needed \<le> end_p cur then
              Some (cur\<lparr>bump := ptr + new_size\<rparr> # ns)
            else if new_size < old_size then
              Some (cur\<lparr>bump := ptr + new_size\<rparr> # ns)
            else None)
         else None)
      else map_option ((#) cur) (realloc_walk ptr old_size new_size ns))"

definition arena_realloc ::
  "heap_reply \<Rightarrow> arena \<Rightarrow> memory \<Rightarrow> addr \<Rightarrow> size_t \<Rightarrow> size_t \<Rightarrow> addr \<times> arena \<times> memory" where
  "arena_realloc h a m ptr old_size0 new_size0 =
     (if new_size0 = 0 then (NULL, a, m)
      else if ptr = NULL then
        (let (p, a') = arena_alloc h a new_size0 in (p, a', m))
      else
        let old_size = align_up old_size0 ARENA_ALIGNMENT;
            new_size = align_up new_size0 ARENA_ALIGNMENT
        in case realloc_walk ptr old_size new_size (root a # rest a) of
             Some (r # rs) \<Rightarrow> (ptr, a\<lparr>root := r, rest := rs\<rparr>, m)
           | _ \<Rightarrow>
             let (new_ptr, a') = arena_alloc h a new_size;
                 copy_size = (if old_size < new_size then old_size else new_size)
             in (new_ptr, a', if new_ptr \<noteq> NULL then memcpy m new_ptr ptr copy_size else m))"

definition arena_push_marker :: "heap_reply \<Rightarrow> arena \<Rightarrow> arena" where
  "arena_push_marker h a =
     (if length (markers a) = unat (marker_cap a) then
        (let new_cap = marker_cap a * 2 in
         if \<not> marks_ok h then a
         else a\<lparr>markers := markers a @ [get_current_position a], marker_cap := new_cap\<rparr>)
      else a\<lparr>markers := markers a @ [get_current_position a]\<rparr>)"

text \<open>
  The loop of \<^verbatim>\<open>arena_pop_marker\<close>. At the block that holds \<open>g\<close> the bump is set
  and the nodes after it are freed; when \<^verbatim>\<open>cur\<close> becomes \<^verbatim>\<open>NULL\<close> the loop ends
  with the chain as it was.
\<close>

fun pop_walk :: "size_t \<Rightarrow> size_t \<Rightarrow> block list \<Rightarrow> block list" where
  "pop_walk g c [] = []"
| "pop_walk g c (cur # ns) =
     (let block_cap = end_p cur - base cur in
      if g \<le> c + block_cap then [cur\<lparr>bump := base cur + (g - c)\<rparr>]
      else cur # pop_walk g (c + block_cap) ns)"

definition arena_pop_marker :: "arena \<Rightarrow> arena" where
  "arena_pop_marker a =
     (if markers a = [] then a
      else
        let g = last (markers a);
            a1 = a\<lparr>markers := butlast (markers a)\<rparr>
        in case pop_walk g 0 (root a1 # rest a1) of
             r # rs \<Rightarrow> a1\<lparr>root := r, rest := rs\<rparr>
           | [] \<Rightarrow> a1)"

definition arena_reset :: "arena \<Rightarrow> arena" where
  "arena_reset a = a\<lparr>markers := [], rest := [], root := (root a)\<lparr>bump := base (root a)\<rparr>\<rparr>"

text \<open>
  \<^verbatim>\<open>arena_strdup\<close>: \<open>str\<close> is the text the argument points to (without its
  terminator), \<open>None\<close> for a \<^verbatim>\<open>NULL\<close> argument.
\<close>

definition arena_strdup ::
  "heap_reply \<Rightarrow> arena \<Rightarrow> memory \<Rightarrow> byte list option \<Rightarrow> addr \<times> arena \<times> memory" where
  "arena_strdup h a m str =
     (case str of
        None \<Rightarrow> (NULL, a, m)
      | Some s \<Rightarrow>
          let len = of_nat (length s) + 1;
              (dup, a') = arena_alloc h a len
          in (dup, a', if dup \<noteq> NULL then store_bytes m dup (s @ [0]) else m))"

section \<open>The public operations as calls\<close>

datatype call =
    Alloc size_t
  | Calloc size_t size_t
  | Realloc addr size_t size_t
  | Strdup "byte list option"
  | Push_marker
  | Pop_marker
  | Reset

fun run_call :: "heap_reply \<Rightarrow> call \<Rightarrow> arena \<times> memory \<Rightarrow> arena \<times> memory" where
  "run_call h (Alloc n) (a, m) = (snd (arena_alloc h a n), m)"
| "run_call h (Calloc num sz) (a, m) = snd (arena_calloc h a m num sz)"
| "run_call h (Realloc p old_size new_size) (a, m) = snd (arena_realloc h a m p old_size new_size)"
| "run_call h (Strdup s) (a, m) = snd (arena_strdup h a m s)"
| "run_call h Push_marker (a, m) = (arena_push_marker h a, m)"
| "run_call h Pop_marker (a, m) = (arena_pop_marker a, m)"
| "run_call h Reset (a, m) = (arena_reset a, m)"

fun run_calls :: "(heap_reply \<times> call) list \<Rightarrow> arena \<times> memory \<Rightarrow> arena \<times> memory" where
  "run_calls [] s = s"
| "run_calls ((h, c) # cs) s = run_calls cs (run_call h c s)"

fun is_allocation :: "call \<Rightarrow> bool" where
  "is_allocation (Alloc n) = True"
| "is_allocation (Calloc num sz) = True"
| "is_allocation (Realloc p old_size new_size) = True"
| "is_allocation (Strdup s) = True"
| "is_allocation Push_marker = False"
| "is_allocation Pop_marker = False"
| "is_allocation Reset = False"

section \<open>Notions the properties are stated with\<close>

definition chain :: "arena \<Rightarrow> block list" where
  "chain a = root a # rest a"

definition capacity :: "block \<Rightarrow> size_t" where
  "capacity b = end_p b - base b"

definition span :: "block \<Rightarrow> addr \<times> addr" where
  "span b = (base b, end_p b)"

definition block_ok :: "block \<Rightarrow> bool" where
  "block_ok b \<longleftrightarrow> base b \<le> bump b \<and> bump b \<le> end_p b"

definition chain_ok :: "arena \<Rightarrow> bool" where
  "chain_ok a \<longleftrightarrow> list_all block_ok (chain a)"

text \<open>The capacity of the whole chain, as a number (not reduced modulo \<open>2 ^ 64\<close>).\<close>

definition total_capacity :: "arena \<Rightarrow> nat" where
  "total_capacity a = sum_list (map (\<lambda>b. unat (capacity b)) (chain a))"

text \<open>
  A well-formed arena: every block has \<^verbatim>\<open>base <= bump <= end\<close>, and the blocks
  together fit into the address space.
\<close>

definition arena_ok :: "arena \<Rightarrow> bool" where
  "arena_ok a \<longleftrightarrow> chain_ok a \<and> total_capacity a < 2 ^ 64"

text \<open>
  The global offset of an address \<open>p\<close> of the last block: the position the arena
  has when the bump of its last block is \<open>p\<close>.
\<close>

definition global_offset :: "arena \<Rightarrow> addr \<Rightarrow> size_t" where
  "global_offset a p =
     get_current_position (set_last_block a ((get_last_block (root a) (rest a))\<lparr>bump := p\<rparr>))"

text \<open>
  Calls whose size and address arithmetic does not wrap around. \<open>address_fits\<close>
  says that the sum \<^verbatim>\<open>last->bump + bytes\<close> of \<^verbatim>\<open>arena_alloc\<close> does not wrap,
  \<open>request_fits\<close> that the rounding of the size does not wrap either, \<open>reply_fits\<close>
  that the buffer the C library gives lies inside the address space, next to the blocks
  the arena has already. \<open>alloc_safe\<close> is what the invariants of the chain need,
  \<open>alloc_fits\<close> what a region of the requested size needs.
\<close>

definition address_fits :: "arena \<Rightarrow> size_t \<Rightarrow> bool" where
  "address_fits a n \<longleftrightarrow>
     unat (bump (get_last_block (root a) (rest a))) + unat (align_up n ARENA_ALIGNMENT) < 2 ^ 64"

definition request_fits :: "arena \<Rightarrow> size_t \<Rightarrow> bool" where
  "request_fits a n \<longleftrightarrow> unat n + 7 < 2 ^ 64 \<and> address_fits a n"

definition reply_fits :: "heap_reply \<Rightarrow> arena \<Rightarrow> size_t \<Rightarrow> bool" where
  "reply_fits h a n \<longleftrightarrow>
     (let sz = new_block_size (capacity (get_last_block (root a) (rest a)))
                 (align_up n ARENA_ALIGNMENT)
      in buf h = NULL \<or>
         (unat (buf h) + unat sz < 2 ^ 64 \<and> total_capacity a + unat sz < 2 ^ 64))"

definition alloc_safe :: "heap_reply \<Rightarrow> arena \<Rightarrow> size_t \<Rightarrow> bool" where
  "alloc_safe h a n \<longleftrightarrow> n = 0 \<or> (address_fits a n \<and> reply_fits h a n)"

definition alloc_fits :: "heap_reply \<Rightarrow> arena \<Rightarrow> size_t \<Rightarrow> bool" where
  "alloc_fits h a n \<longleftrightarrow> n = 0 \<or> (request_fits a n \<and> reply_fits h a n)"

definition create_fits :: "heap_reply \<Rightarrow> size_t \<Rightarrow> bool" where
  "create_fits h n \<longleftrightarrow>
     buf h = NULL \<or> unat (buf h) + unat (if n = 0 then ARENA_DEFAULT_SIZE else n) < 2 ^ 64"

fun call_fits :: "heap_reply \<Rightarrow> arena \<Rightarrow> call \<Rightarrow> bool" where
  "call_fits h a (Alloc n) = alloc_safe h a n"
| "call_fits h a (Calloc num sz) = alloc_safe h a (num * sz)"
| "call_fits h a (Strdup None) = True"
| "call_fits h a (Strdup (Some s)) = alloc_safe h a (of_nat (length s) + 1)"
| "call_fits h a (Realloc p old_size new_size) =
     (if new_size = 0 then True
      else if p = NULL then alloc_safe h a new_size
      else unat p + unat (align_up old_size ARENA_ALIGNMENT) < 2 ^ 64 \<and>
           unat p + unat (align_up new_size ARENA_ALIGNMENT) < 2 ^ 64 \<and>
           alloc_safe h a (align_up new_size ARENA_ALIGNMENT))"
| "call_fits h a Push_marker = True"
| "call_fits h a Pop_marker = True"
| "call_fits h a Reset = True"

fun any_call :: "call \<Rightarrow> bool" where
  "any_call c = True"

text \<open>
  The arena states that \<^verbatim>\<open>arena_create\<close> and calls of kind \<open>P\<close> lead to, when no
  call wraps around.
\<close>

inductive reach :: "(call \<Rightarrow> bool) \<Rightarrow> arena \<Rightarrow> bool" for P :: "call \<Rightarrow> bool" where
  reach_create: "arena_create h n = Some a \<Longrightarrow> create_fits h n \<Longrightarrow> reach P a"
| reach_call: "reach P a \<Longrightarrow> P c \<Longrightarrow> call_fits h a c \<Longrightarrow> reach P (fst (run_call h c (a, m)))"

section \<open>Example states\<close>

definition heap_at :: "addr \<Rightarrow> heap_reply" where
  "heap_at p = \<lparr>node_ok = True, buf = p, marks_ok = True\<rparr>"

definition arena64 :: arena where
  "arena64 = \<lparr>root = \<lparr>base = 0x1000, bump = 0x1000, end_p = 0x1040\<rparr>,
               rest = [], markers = [], marker_cap = 16\<rparr>"

definition two_blocks :: arena where
  "two_blocks = \<lparr>root = \<lparr>base = 0x1000, bump = 0x1020, end_p = 0x1040\<rparr>,
                  rest = [\<lparr>base = 0x200000, bump = 0x200068, end_p = 0x300000\<rparr>],
                  markers = [32, 168], marker_cap = 16\<rparr>"

definition stale_arena :: arena where
  "stale_arena = \<lparr>root = \<lparr>base = 0x1000, bump = 0x1010, end_p = 0x1040\<rparr>,
                   rest = [], markers = [8, 5000], marker_cap = 16\<rparr>"


definition used32 :: arena where
  "used32 = \<lparr>root = \<lparr>base = 0x1000, bump = 0x1020, end_p = 0x1040\<rparr>,
              rest = [], markers = [], marker_cap = 16\<rparr>"

definition zero_memory :: memory where
  "zero_memory = (\<lambda>x. 0)"

text \<open>The 64-byte arena at \<open>0x1000\<close> with its bump at \<open>x\<close> and the marker stack \<open>ms\<close>.\<close>

definition marked :: "addr \<Rightarrow> size_t list \<Rightarrow> arena" where
  "marked x ms = \<lparr>root = \<lparr>base = 0x1000, bump = x, end_p = 0x1040\<rparr>,
                   rest = [], markers = ms, marker_cap = 16\<rparr>"

text \<open>
  The arena with a 100-byte root at \<open>0x1000\<close>, its bump at \<open>x\<close>, the blocks \<open>bs\<close>
  after it and the marker stack \<open>ms\<close>.
\<close>

definition arena100 :: "addr \<Rightarrow> block list \<Rightarrow> size_t list \<Rightarrow> arena" where
  "arena100 x bs ms = \<lparr>root = \<lparr>base = 0x1000, bump = x, end_p = 0x1064\<rparr>,
                        rest = bs, markers = ms, marker_cap = 16\<rparr>"

section \<open>In-place reallocation in the words of the specification\<close>

text \<open>
  The block whose span \<^verbatim>\<open>[base, end)\<close> contains \<open>p\<close> (the first one, in chain order),
  the chain with the bump of that block set to \<open>x\<close>, and the two conditions under which
  a region can be resized where it is: it ends at the bump of its block, and the block
  has room for the new size.
\<close>

fun containing_block :: "addr \<Rightarrow> block list \<Rightarrow> block option" where
  "containing_block p [] = None"
| "containing_block p (b # bs) =
     (if base b \<le> p \<and> p < end_p b then Some b else containing_block p bs)"

fun resize_in :: "addr \<Rightarrow> addr \<Rightarrow> block list \<Rightarrow> block list" where
  "resize_in p x [] = []"
| "resize_in p x (b # bs) =
     (if base b \<le> p \<and> p < end_p b then b\<lparr>bump := x\<rparr> # bs else b # resize_in p x bs)"

definition with_chain :: "arena \<Rightarrow> block list \<Rightarrow> arena" where
  "with_chain a bs = (case bs of [] \<Rightarrow> a | r # rs \<Rightarrow> a\<lparr>root := r, rest := rs\<rparr>)"

definition last_in_block :: "arena \<Rightarrow> addr \<Rightarrow> size_t \<Rightarrow> bool" where
  "last_in_block a p old_size \<longleftrightarrow>
     (case containing_block p (chain a) of
        None \<Rightarrow> False
      | Some b \<Rightarrow> p + align_up old_size ARENA_ALIGNMENT = bump b)"

definition has_room :: "arena \<Rightarrow> addr \<Rightarrow> size_t \<Rightarrow> size_t \<Rightarrow> bool" where
  "has_room a p old_size new_size \<longleftrightarrow>
     (case containing_block p (chain a) of
        None \<Rightarrow> False
      | Some b \<Rightarrow>
          (let old = align_up old_size ARENA_ALIGNMENT;
               new = align_up new_size ARENA_ALIGNMENT
           in bump b + (if old < new then new - old else 0) \<le> end_p b \<or> new < old))"

text \<open>
  A live region: \<open>n\<close> bytes at \<open>p\<close> inside the used part of a block of the chain.
  Distinct blocks of a chain do not overlap, and neither does a buffer the C library
  gives with the blocks there are.
\<close>

definition live_region :: "arena \<Rightarrow> addr \<Rightarrow> size_t \<Rightarrow> bool" where
  "live_region a p n \<longleftrightarrow>
     list_ex (\<lambda>b. base b \<le> p \<and> unat p + unat n \<le> unat (bump b)) (chain a)"

definition apart :: "block \<Rightarrow> block \<Rightarrow> bool" where
  "apart b c \<longleftrightarrow> end_p b \<le> base c \<or> end_p c \<le> base b"

definition blocks_apart :: "arena \<Rightarrow> bool" where
  "blocks_apart a \<longleftrightarrow> pairwise apart (set (chain a))"

definition reply_apart :: "heap_reply \<Rightarrow> arena \<Rightarrow> size_t \<Rightarrow> bool" where
  "reply_apart h a n \<longleftrightarrow>
     (let sz = new_block_size (capacity (get_last_block (root a) (rest a)))
                 (align_up n ARENA_ALIGNMENT)
      in list_all (apart \<lparr>base = buf h, bump = buf h, end_p = buf h + sz\<rparr>) (chain a))"


section \<open>Shrinking the last allocation of the last block\<close>

text \<open>
  The one call that lowers the global position and keeps the markers: an
  \<^verbatim>\<open>arena_realloc\<close> of the region that ends at the bump of the last block of the chain
  (no earlier block contains the pointer), to a smaller aligned size. It is resized
  where it is, and the bump of the last block moves down to the end of the region.
  When that end lies below the marker on top of the stack, the call shrinks the region
  below the marker. Every other \<^verbatim>\<open>arena_realloc\<close> is left in: of \<^verbatim>\<open>NULL\<close>, to size
  0, to a smaller size by copying, to a smaller size in a block that is not the last
  one, and to a smaller size that ends at or above the marker on top of the stack.
\<close>

definition shrinks_tail :: "arena \<Rightarrow> call \<Rightarrow> bool" where
  "shrinks_tail a c =
     (case c of
        Realloc p old_size new_size \<Rightarrow>
          p \<noteq> NULL \<and> new_size \<noteq> 0 \<and>
          containing_block p (butlast (chain a)) = None \<and>
          last_in_block a p old_size \<and>
          align_up new_size ARENA_ALIGNMENT < align_up old_size ARENA_ALIGNMENT
      | _ \<Rightarrow> False)"

definition shrinks_below_marker :: "arena \<Rightarrow> call \<Rightarrow> bool" where
  "shrinks_below_marker a c =
     (case c of
        Realloc p old_size new_size \<Rightarrow>
          shrinks_tail a c \<and> markers a \<noteq> [] \<and>
          global_offset a (p + align_up new_size ARENA_ALIGNMENT) < last (markers a)
      | _ \<Rightarrow> False)"

text \<open>
  The arena states that \<^verbatim>\<open>arena_create\<close> and calls other than these lead to, when
  no call wraps around.
\<close>

inductive reach_unshrunk :: "arena \<Rightarrow> bool" where
  unshrunk_create: "arena_create h n = Some a \<Longrightarrow> create_fits h n \<Longrightarrow> reach_unshrunk a"
| unshrunk_call: "reach_unshrunk a \<Longrightarrow> \<not> shrinks_below_marker a c \<Longrightarrow> call_fits h a c \<Longrightarrow>
     reach_unshrunk (fst (run_call h c (a, m)))"

section \<open>A region carved from the last block\<close>

text \<open>
  What a call that turns the arena \<open>a\<close> into \<open>a'\<close> and returns the \<open>n\<close> bytes at \<open>p\<close>
  does when it allocates from the last block only: the blocks before the last one
  are as they were; the last block of \<open>a'\<close> is the block that was last (same base and
  end) or a block appended behind it; and the region lies in the used part of that
  block.
\<close>

definition carved_from_tail :: "arena \<Rightarrow> addr \<Rightarrow> size_t \<Rightarrow> arena \<Rightarrow> bool" where
  "carved_from_tail a p n a' \<longleftrightarrow>
     (let t = last (chain a') in
        prefix (butlast (chain a)) (chain a') \<and>
        (butlast (chain a') = butlast (chain a) \<and> span t = span (last (chain a)) \<or>
         butlast (chain a') = chain a) \<and>
        base t \<le> p \<and> unat p + unat n \<le> unat (bump t) \<and> bump t \<le> end_p t)"

section \<open>Alignment of the offsets\<close>

text \<open>
  The offset of a bump from the base of its block is a multiple of 8 in every block,
  every block after the root is in use, and every marker leads the walk of
  \<^verbatim>\<open>arena_pop_marker\<close> to a block of the chain (\<open>land_index\<close>, counted from the
  root) and to an offset in it (\<open>land_offset\<close>, the \<^verbatim>\<open>g - c\<close> of the walk) that is a
  multiple of 8, the markers higher in the stack leading to later blocks.
\<close>

fun land_index :: "size_t \<Rightarrow> size_t \<Rightarrow> block list \<Rightarrow> nat" where
  "land_index g c [] = 0"
| "land_index g c (cur # ns) =
     (let block_cap = end_p cur - base cur in
      if g \<le> c + block_cap then 0 else Suc (land_index g (c + block_cap) ns))"

fun land_offset :: "size_t \<Rightarrow> size_t \<Rightarrow> block list \<Rightarrow> size_t" where
  "land_offset g c [] = 0"
| "land_offset g c (cur # ns) =
     (let block_cap = end_p cur - base cur in
      if g \<le> c + block_cap then g - c else land_offset g (c + block_cap) ns)"

definition aligned_block :: "block \<Rightarrow> bool" where
  "aligned_block b \<longleftrightarrow> unat (bump b - base b) mod 8 = 0"

definition started :: "block \<Rightarrow> bool" where
  "started b \<longleftrightarrow> bump b \<noteq> base b"

definition lands :: "block list \<Rightarrow> size_t \<Rightarrow> bool" where
  "lands bs g \<longleftrightarrow> land_index g 0 bs < length bs \<and> unat (land_offset g 0 bs) mod 8 = 0"

definition markers_land :: "block list \<Rightarrow> size_t list \<Rightarrow> bool" where
  "markers_land bs ms \<longleftrightarrow>
     list_all (lands bs) ms \<and> sorted (map (\<lambda>g. land_index g 0 bs) ms)"

definition aligned_arena :: "arena \<Rightarrow> bool" where
  "aligned_arena a \<longleftrightarrow>
     list_all aligned_block (chain a) \<and> list_all started (rest a) \<and>
     markers_land (chain a) (markers a)"

text \<open>
  An \<^verbatim>\<open>arena_realloc\<close> of a region to a size that \<^verbatim>\<open>align_up\<close> does not wrap
  around to 0.
\<close>

fun realloc_rounds :: "call \<Rightarrow> bool" where
  "realloc_rounds (Realloc p old_size new_size) = (p = NULL \<or> unat new_size + 7 < 2 ^ 64)"
| "realloc_rounds c = True"
section \<open>Basic facts\<close>

subsection \<open>Rounding up\<close>

lemma and_not_mask3: "(x::64 word) AND NOT (mask 3) = push_bit 3 (drop_bit 3 x)"
  by (rule bit_eqI) (auto simp: bit_simps)

lemma unat_and_not7: "unat ((x::64 word) AND NOT 7) = unat x div 8 * 8"
proof -
  have seven: "(7::64 word) = mask 3"
    by (simp add: mask_eq_exp_minus_1)
  have "unat x < 2 ^ 64"
    using unsigned_less [of x] by simp
  moreover have "unat x div 8 * 8 \<le> unat x"
    by simp
  ultimately have small: "unat x div 8 * 8 < 2 ^ 64"
    by (rule le_less_trans [rotated])
  have "unat (push_bit 3 (drop_bit 3 x)) = take_bit 64 (push_bit 3 (drop_bit 3 (unat x)))"
    by (simp add: unsigned_push_bit_eq unat_drop_bit_eq)
  also have "\<dots> = (unat x div 8 * 8) mod 2 ^ 64"
    by (simp add: take_bit_eq_mod push_bit_eq_mult drop_bit_eq_div)
  also have "\<dots> = unat x div 8 * 8"
    using small by simp
  finally show ?thesis
    unfolding seven and_not_mask3 .
qed

lemma unat_align_up:
  "unat (align_up n ARENA_ALIGNMENT) = ((unat n + 7) mod 2 ^ 64) div 8 * 8"
proof -
  have "align_up n ARENA_ALIGNMENT = (n + 7) AND NOT 7"
    by (simp add: align_up_def ARENA_ALIGNMENT_def add.commute)
  then show ?thesis
    by (simp only: unat_and_not7) (simp add: unat_word_ariths)
qed

lemma unat_align_up_fits:
  "unat n + 7 < 2 ^ 64 \<Longrightarrow> unat (align_up n ARENA_ALIGNMENT) = (unat n + 7) div 8 * 8"
  by (simp add: unat_align_up)

lemma align_up_ge: "unat n + 7 < 2 ^ 64 \<Longrightarrow> unat n \<le> unat (align_up n ARENA_ALIGNMENT)"
  by (simp add: unat_align_up_fits)

lemma align_up_nonzero:
  "unat n + 7 < 2 ^ 64 \<Longrightarrow> n \<noteq> 0 \<Longrightarrow> 0 < unat (align_up n ARENA_ALIGNMENT)"
  using align_up_ge [of n] by (simp add: unat_gt_0 [symmetric]) 

lemma align_up_mod8: "unat (align_up n ARENA_ALIGNMENT) mod 8 = 0"
  by (simp add: unat_align_up)

lemma align_up_fits: "unat (align_up n ARENA_ALIGNMENT) + 7 < 2 ^ 64"
proof -
  have "unat (align_up n ARENA_ALIGNMENT) < 2 ^ 64"
    using unsigned_less [of "align_up n ARENA_ALIGNMENT"] by simp
  moreover have "unat (align_up n ARENA_ALIGNMENT) mod 8 = 0"
    by (rule align_up_mod8)
  ultimately show ?thesis
    by simp presburger
qed

lemma align_up_idem:
  "align_up (align_up n ARENA_ALIGNMENT) ARENA_ALIGNMENT = align_up n ARENA_ALIGNMENT"
proof -
  let ?x = "align_up n ARENA_ALIGNMENT"
  have lt: "unat ?x < 2 ^ 64"
    using unsigned_less [of ?x] by simp
  have m: "unat ?x mod 8 = 0"
    by (rule align_up_mod8)
  from lt m have fits: "unat ?x + 7 < 2 ^ 64"
    by simp presburger
  have "unat (align_up ?x ARENA_ALIGNMENT) = (unat ?x + 7) div 8 * 8"
    using fits by (rule unat_align_up_fits)
  also have "\<dots> = unat ?x"
    using m by presburger
  finally show ?thesis
    by (simp add: word_unat_eq_iff)
qed

subsection \<open>The chain\<close>

lemma get_last_block_last: "get_last_block c ns = last (c # ns)"
  by (induction ns arbitrary: c) auto

lemma position_loop_sum:
  "position_loop pos c ns =
     pos + sum_list (map capacity (butlast (c # ns))) + (bump (last (c # ns)) - base (last (c # ns)))"
  by (induction ns arbitrary: pos c) (auto simp: capacity_def)

lemma chain_nonempty [simp]: "chain a \<noteq> []"
  by (simp add: chain_def)

lemma chain_set_last_block: "chain (set_last_block a b) = butlast (chain a) @ [b]"
  by (simp add: set_last_block_def chain_def)

lemma position_chain:
  "get_current_position a =
     sum_list (map capacity (butlast (chain a))) + (bump (last (chain a)) - base (last (chain a)))"
  by (simp add: get_current_position_def position_loop_sum chain_def)


subsection \<open>The three outcomes of arena_alloc\<close>

lemma last_chain: "get_last_block (root a) (rest a) = last (chain a)"
  by (simp add: get_last_block_last chain_def)

lemma alloc_zero: "arena_alloc h a 0 = (NULL, a)"
  by (simp add: arena_alloc_def)

lemma alloc_in_tail:
  assumes "n \<noteq> 0"
    and "\<not> end_p (last (chain a)) < bump (last (chain a)) + align_up n ARENA_ALIGNMENT"
  shows "arena_alloc h a n =
           (bump (last (chain a)),
            set_last_block a ((last (chain a))
              \<lparr>bump := bump (last (chain a)) + align_up n ARENA_ALIGNMENT\<rparr>))"
  using assms by (simp add: arena_alloc_def Let_def last_chain)

lemma alloc_grow:
  assumes "n \<noteq> 0"
    and "end_p (last (chain a)) < bump (last (chain a)) + align_up n ARENA_ALIGNMENT"
    and "node_ok h" and "buf h \<noteq> NULL"
  shows "arena_alloc h a n =
           (buf h,
            a\<lparr>rest := rest a @
               [\<lparr>base = buf h, bump = buf h + align_up n ARENA_ALIGNMENT,
                 end_p = buf h + new_block_size (capacity (last (chain a)))
                                   (align_up n ARENA_ALIGNMENT)\<rparr>]\<rparr>)"
  using assms by (simp add: arena_alloc_def Let_def last_chain capacity_def)

lemma alloc_fail:
  assumes "end_p (last (chain a)) < bump (last (chain a)) + align_up n ARENA_ALIGNMENT"
    and "\<not> node_ok h \<or> buf h = NULL"
  shows "arena_alloc h a n = (NULL, a)"
  using assms by (auto simp: arena_alloc_def Let_def last_chain)

lemma unat_new_block_size:
  "unat (new_block_size c b) =
     max (max ((2 * unat c) mod 2 ^ 64) (unat ARENA_DEFAULT_SIZE)) (unat b)"
  by (simp add: new_block_size_def Let_def word_less_nat_alt unat_word_ariths max_def mult.commute)

lemma new_block_size_ge: "unat b \<le> unat (new_block_size c b)"
  by (simp add: unat_new_block_size)

text \<open>In a well-formed block a request that does not wrap is told apart exactly.\<close>

lemma tail_test_nat:
  assumes "unat (bump l) + unat bytes < 2 ^ 64"
  shows "end_p l < bump l + bytes \<longleftrightarrow> unat (end_p l) < unat (bump l) + unat bytes"
  using assms by (simp add: word_less_nat_alt unat_add_lem [THEN iffD1])

lemma unat_capacity: "base l \<le> end_p l \<Longrightarrow> unat (capacity l) = unat (end_p l) - unat (base l)"
  by (simp add: capacity_def unat_sub)

subsection \<open>The walk of arena_pop_marker\<close>

lemma unat_add_le: "unat (c + k) \<le> unat c + unat (k :: 64 word)"
  by (simp add: unat_word_ariths)

lemma offset_in_block:
  assumes "c \<le> g" and "g \<le> c + k"
  shows "unat (g - c) \<le> unat (k :: 64 word)"
proof -
  from assms(2) have "unat g \<le> unat c + unat k"
    using unat_add_le [of c k] by (simp add: word_le_nat_alt)
  then show ?thesis
    using assms(1) by (simp add: unat_sub)
qed

lemma bump_in_block:
  assumes "base b \<le> end_p b" and "unat d \<le> unat (capacity b)"
  shows "block_ok (b\<lparr>bump := base b + d\<rparr>)"
proof -
  have e: "unat (end_p b) < 2 ^ 64"
    using unsigned_less [of "end_p b"] by simp
  from assms have "unat (base b) + unat d \<le> unat (end_p b)"
    by (simp add: unat_capacity word_le_nat_alt)
  with e have "unat (base b + d) = unat (base b) + unat d"
    by (simp add: unat_add_lem [THEN iffD1])
  with \<open>unat (base b) + unat d \<le> unat (end_p b)\<close> show ?thesis
    by (simp add: block_ok_def word_le_nat_alt)
qed

lemma pop_walk_set:
  assumes "c \<le> g" and "list_all (\<lambda>b. base b \<le> end_p b) bs"
  shows "list_all (\<lambda>b. b \<in> set bs \<or> block_ok b) (pop_walk g c bs)"
  using assms
proof (induction bs arbitrary: c)
  case Nil
  then show ?case by simp
next
  case (Cons cur ns)
  show ?case
  proof (cases "g \<le> c + (end_p cur - base cur)")
    case True
    with Cons.prems have "block_ok (cur\<lparr>bump := base cur + (g - c)\<rparr>)"
      by (intro bump_in_block) (simp_all add: offset_in_block capacity_def)
    with True show ?thesis by simp
  next
    case False
    then have "c + (end_p cur - base cur) \<le> g" by simp
    with Cons.prems have "list_all (\<lambda>b. b \<in> set ns \<or> block_ok b)
        (pop_walk g (c + (end_p cur - base cur)) ns)"
      by (intro Cons.IH) simp_all
    then have "list_all (\<lambda>b. b \<in> set (cur # ns) \<or> block_ok b)
        (pop_walk g (c + (end_p cur - base cur)) ns)"
      by (simp add: list_all_iff)
    with False show ?thesis by simp
  qed
qed

lemma block_ok_span: "block_ok b \<Longrightarrow> base b \<le> end_p b"
  by (auto simp: block_ok_def)

lemma pop_walk_ok:
  assumes "c \<le> g" and "list_all block_ok bs"
  shows "list_all block_ok (pop_walk g c bs)"
proof -
  from assms(2) have "list_all (\<lambda>b. base b \<le> end_p b) bs"
    by (simp add: list_all_iff block_ok_span)
  with assms(1) have "list_all (\<lambda>b. b \<in> set bs \<or> block_ok b) (pop_walk g c bs)"
    by (rule pop_walk_set)
  with assms(2) show ?thesis
    by (auto simp: list_all_iff)
qed

lemma pop_walk_beyond:
  "unat c + sum_list (map (\<lambda>b. unat (capacity b)) bs) < unat g \<Longrightarrow> pop_walk g c bs = bs"
proof (induction bs arbitrary: c)
  case Nil
  then show ?case by simp
next
  case (Cons cur ns)
  let ?k = "end_p cur - base cur"
  from Cons.prems have "unat (c + ?k) < unat g"
    using unat_add_le [of c ?k] by (simp add: capacity_def)
  then have stop: "\<not> g \<le> c + ?k"
    by (simp add: word_le_nat_alt)
  from Cons.prems have "unat (c + ?k) + sum_list (map (\<lambda>b. unat (capacity b)) ns) < unat g"
    using unat_add_le [of c ?k] by (simp add: capacity_def)
  then have "pop_walk g (c + ?k) ns = ns"
    by (rule Cons.IH)
  with stop show ?case by simp
qed

lemma pop_walk_nonempty: "bs \<noteq> [] \<Longrightarrow> pop_walk g c bs \<noteq> []"
  by (cases bs) (simp_all add: Let_def)

lemma chain_pop_marker:
  "markers a \<noteq> [] \<Longrightarrow> chain (arena_pop_marker a) = pop_walk (last (markers a)) 0 (chain a)"
  using pop_walk_nonempty [of "chain a" "last (markers a)" 0]
  by (auto simp: arena_pop_marker_def chain_def Let_def split: list.splits)

lemma chain_pop_marker_empty: "markers a = [] \<Longrightarrow> arena_pop_marker a = a"
  by (simp add: arena_pop_marker_def)

lemma markers_pop_marker: "markers (arena_pop_marker a) = butlast (markers a)"
  by (auto simp: arena_pop_marker_def Let_def split: list.splits)

subsection \<open>arena_alloc keeps the chain well-formed\<close>

lemma alloc_cases [case_names null in_tail grown]:
  fixes h a n
  defines "l \<equiv> last (chain a)" and "bytes \<equiv> align_up n ARENA_ALIGNMENT"
  obtains
    (null) "arena_alloc h a n = (NULL, a)"
  | (in_tail) "n \<noteq> 0" and "bump l + bytes \<le> end_p l"
      and "arena_alloc h a n = (bump l, set_last_block a (l\<lparr>bump := bump l + bytes\<rparr>))"
  | (grown) "n \<noteq> 0" and "end_p l < bump l + bytes" and "buf h \<noteq> NULL"
      and "arena_alloc h a n =
             (buf h, a\<lparr>rest := rest a @
                [\<lparr>base = buf h, bump = buf h + bytes,
                  end_p = buf h + new_block_size (capacity l) bytes\<rparr>]\<rparr>)"
proof (cases "n = 0")
  case True
  then show ?thesis using null by (simp add: alloc_zero)
next
  case n: False
  show ?thesis
  proof (cases "end_p l < bump l + bytes")
    case False
    then show ?thesis
      using n in_tail alloc_in_tail [of n a h] by (simp add: l_def bytes_def)
  next
    case big: True
    show ?thesis
    proof (cases "node_ok h \<and> buf h \<noteq> NULL")
      case True
      then show ?thesis
        using n big grown alloc_grow [of n a h] by (simp add: l_def bytes_def)
    next
      case False
      then show ?thesis
        using big null alloc_fail [of a n h] by (auto simp: l_def bytes_def)
    qed
  qed
qed

lemma chain_append_rest: "chain (a\<lparr>rest := rest a @ bs\<rparr>) = chain a @ bs"
  by (simp add: chain_def)

lemma capacity_bump [simp]: "capacity (b\<lparr>bump := x\<rparr>) = capacity b"
  by (simp add: capacity_def)

lemma span_bump [simp]: "span (b\<lparr>bump := x\<rparr>) = span b"
  by (simp add: span_def)

lemma butlast_snoc_last: "bs \<noteq> [] \<Longrightarrow> butlast bs @ [last bs] = bs"
  by simp

lemma map_set_last:
  assumes "bs \<noteq> []" and "f b = f (last bs)"
  shows "map f (butlast bs @ [b]) = map f bs"
proof -
  have "map f (butlast bs @ [b]) = map f (butlast bs @ [last bs])"
    using assms(2) by simp
  then show ?thesis
    using assms(1) by simp
qed

lemma list_all_set_last:
  "list_all P bs \<Longrightarrow> P b \<Longrightarrow> list_all P (butlast bs @ [b])"
  by (auto simp: list_all_iff dest: in_set_butlastD)

lemma block_ok_advance:
  assumes "block_ok l" and "bump l + bytes \<le> end_p l"
    and "unat (bump l) + unat bytes < 2 ^ 64"
  shows "block_ok (l\<lparr>bump := bump l + bytes\<rparr>)"
proof -
  from assms(3) have "unat (bump l + bytes) = unat (bump l) + unat bytes"
    by (simp add: unat_add_lem [THEN iffD1])
  with assms(1,2) show ?thesis
    by (simp add: block_ok_def word_le_nat_alt)
qed

lemma block_ok_fresh:
  assumes "unat p + unat sz < 2 ^ 64" and "unat bytes \<le> unat sz"
  shows "block_ok \<lparr>base = p, bump = p + bytes, end_p = p + sz\<rparr>"
proof -
  from assms have "unat (p + bytes) = unat p + unat bytes" "unat (p + sz) = unat p + unat sz"
    by (simp_all add: unat_add_lem [THEN iffD1])
  with assms(2) show ?thesis
    by (simp add: block_ok_def word_le_nat_alt)
qed

lemma capacity_fresh [simp]: "capacity \<lparr>base = p, bump = q, end_p = p + sz\<rparr> = sz"
  by (simp add: capacity_def)

lemma alloc_chain_ok:
  assumes "chain_ok a" and "alloc_safe h a n"
  shows "chain_ok (snd (arena_alloc h a n))"
proof (cases rule: alloc_cases [where h = h and a = a and n = n])
  case null
  with assms(1) show ?thesis by simp
next
  case in_tail
  from assms(2) in_tail(1) have "unat (bump (last (chain a))) + unat (align_up n ARENA_ALIGNMENT) < 2 ^ 64"
    by (simp add: alloc_safe_def address_fits_def last_chain)
  moreover from assms(1) have "block_ok (last (chain a))"
    by (simp add: chain_ok_def list_all_iff)
  ultimately have "block_ok ((last (chain a))\<lparr>bump := bump (last (chain a)) + align_up n ARENA_ALIGNMENT\<rparr>)"
    using in_tail(2) by (intro block_ok_advance)
  with assms(1) have "list_all block_ok (butlast (chain a) @
      [(last (chain a))\<lparr>bump := bump (last (chain a)) + align_up n ARENA_ALIGNMENT\<rparr>])"
    unfolding chain_ok_def by (rule list_all_set_last)
  then show ?thesis
    by (simp only: in_tail(3) snd_conv chain_ok_def chain_set_last_block)
next
  case grown
  from assms(2) grown(1,3) have
    "unat (buf h) + unat (new_block_size (capacity (last (chain a))) (align_up n ARENA_ALIGNMENT)) < 2 ^ 64"
    by (simp add: alloc_safe_def reply_fits_def last_chain Let_def)
  then have "block_ok \<lparr>base = buf h, bump = buf h + align_up n ARENA_ALIGNMENT,
      end_p = buf h + new_block_size (capacity (last (chain a))) (align_up n ARENA_ALIGNMENT)\<rparr>"
    by (intro block_ok_fresh new_block_size_ge)
  with assms(1) show ?thesis
    by (simp add: grown(4) chain_ok_def chain_append_rest)
qed

lemma alloc_total_capacity:
  assumes "total_capacity a < 2 ^ 64" and "alloc_safe h a n"
  shows "total_capacity (snd (arena_alloc h a n)) < 2 ^ 64"
proof (cases rule: alloc_cases [where h = h and a = a and n = n])
  case null
  with assms(1) show ?thesis by simp
next
  case in_tail
  have "map (\<lambda>b. unat (capacity b)) (butlast (chain a) @
      [(last (chain a))\<lparr>bump := bump (last (chain a)) + align_up n ARENA_ALIGNMENT\<rparr>]) =
        map (\<lambda>b. unat (capacity b)) (chain a)"
    by (rule map_set_last) simp_all
  with assms(1) show ?thesis
    by (simp only: in_tail(3) snd_conv total_capacity_def chain_set_last_block)
next
  case grown
  from assms(2) grown(1,3) have
    "total_capacity a + unat (new_block_size (capacity (last (chain a))) (align_up n ARENA_ALIGNMENT)) < 2 ^ 64"
    by (simp add: alloc_safe_def reply_fits_def last_chain Let_def)
  then show ?thesis
    by (simp add: grown(4) total_capacity_def chain_append_rest)
qed

lemma alloc_markers [simp]: "markers (snd (arena_alloc h a n)) = markers a"
  by (cases rule: alloc_cases [where h = h and a = a and n = n]) (simp_all add: set_last_block_def)

lemma alloc_marker_cap [simp]: "marker_cap (snd (arena_alloc h a n)) = marker_cap a"
  by (cases rule: alloc_cases [where h = h and a = a and n = n]) (simp_all add: set_last_block_def)

lemma calloc_arena: "fst (snd (arena_calloc h a m num sz)) = snd (arena_alloc h a (num * sz))"
  by (simp add: arena_calloc_def Let_def split: prod.split)

lemma strdup_arena:
  "fst (snd (arena_strdup h a m (Some s))) = snd (arena_alloc h a (of_nat (length s) + 1))"
  by (simp add: arena_strdup_def Let_def split: prod.split)

lemma strdup_none: "arena_strdup h a m None = (NULL, a, m)"
  by (simp add: arena_strdup_def)

lemma alloc_fits_safe: "alloc_fits h a n \<Longrightarrow> alloc_safe h a n"
  by (auto simp: alloc_fits_def alloc_safe_def request_fits_def)

lemma alloc_safe_rounded:
  "alloc_safe h a (align_up n ARENA_ALIGNMENT) \<Longrightarrow> alloc_fits h a (align_up n ARENA_ALIGNMENT)"
  using align_up_fits [of n] by (auto simp: alloc_fits_def alloc_safe_def request_fits_def)

subsection \<open>The search of arena_realloc\<close>

lemma realloc_walk_spans:
  "realloc_walk p old new bs = Some bs' \<Longrightarrow> map span bs' = map span bs"
  by (induction bs arbitrary: bs') (auto simp: Let_def split: if_splits)

lemma realloc_walk_nonempty: "realloc_walk p old new bs = Some bs' \<Longrightarrow> bs' \<noteq> []"
  by (cases bs) (auto simp: Let_def split: if_splits)

lemma realloc_cases [case_names free fresh in_place copy]:
  fixes h a m p old_size new_size
  defines "old \<equiv> align_up old_size ARENA_ALIGNMENT"
    and "new \<equiv> align_up new_size ARENA_ALIGNMENT"
  obtains
    (free) "new_size = 0" and "arena_realloc h a m p old_size new_size = (NULL, a, m)"
  | (fresh) "new_size \<noteq> 0" and "p = NULL"
      and "arena_realloc h a m p old_size new_size =
             (fst (arena_alloc h a new_size), snd (arena_alloc h a new_size), m)"
  | (in_place) r rs where "new_size \<noteq> 0" and "p \<noteq> NULL"
      and "realloc_walk p old new (chain a) = Some (r # rs)"
      and "arena_realloc h a m p old_size new_size = (p, a\<lparr>root := r, rest := rs\<rparr>, m)"
  | (copy) "new_size \<noteq> 0" and "p \<noteq> NULL"
      and "realloc_walk p old new (chain a) = None"
      and "arena_realloc h a m p old_size new_size =
             (fst (arena_alloc h a new), snd (arena_alloc h a new),
              if fst (arena_alloc h a new) \<noteq> NULL
              then memcpy m (fst (arena_alloc h a new)) p (if old < new then old else new)
              else m)"
proof (cases "new_size = 0")
  case True
  then show ?thesis using free by (simp add: arena_realloc_def)
next
  case nz: False
  show ?thesis
  proof (cases "p = NULL")
    case True
    then show ?thesis
      using nz fresh by (simp add: arena_realloc_def split: prod.split)
  next
    case pn: False
    show ?thesis
    proof (cases "realloc_walk p old new (chain a)")
      case None
      then show ?thesis
        using nz pn copy
        by (simp add: arena_realloc_def old_def new_def chain_def Let_def split: prod.split)
    next
      case (Some bs)
      then obtain r rs where "bs = r # rs"
        using realloc_walk_nonempty [of p old new "chain a" bs] by (cases bs) auto
      with Some show ?thesis
        using nz pn in_place [of r rs]
        by (simp add: arena_realloc_def old_def new_def chain_def Let_def)
    qed
  qed
qed

lemma realloc_walk_head:
  assumes "base cur \<le> p" and "p < end_p cur"
    and "realloc_walk p old new (cur # ns) = Some bs'"
  shows "p + old = bump cur \<and> bs' = cur\<lparr>bump := p + new\<rparr> # ns \<and>
         (bump cur + (if old < new then new - old else 0) \<le> end_p cur \<or> new < old)"
  using assms by (auto simp: Let_def split: if_splits)

lemma realloc_walk_skip:
  assumes "\<not> (base cur \<le> p \<and> p < end_p cur)"
  shows "realloc_walk p old new (cur # ns) = map_option ((#) cur) (realloc_walk p old new ns)"
  by (subst realloc_walk.simps) (simp only: assms if_False)

lemma realloc_walk_ok:
  assumes "list_all block_ok bs"
    and "unat p + unat old < 2 ^ 64" and "unat p + unat new < 2 ^ 64"
    and "realloc_walk p old new bs = Some bs'"
  shows "list_all block_ok bs'"
  using assms(1,4)
proof (induction bs arbitrary: bs')
  case Nil
  then show ?case by simp
next
  case (Cons cur ns)
  from Cons.prems(1) have ok: "block_ok cur" and oks: "list_all block_ok ns"
    by simp_all
  show ?case
  proof (cases "base cur \<le> p \<and> p < end_p cur")
    case False
    from Cons.prems(2) have "map_option ((#) cur) (realloc_walk p old new ns) = Some bs'"
      by (simp only: realloc_walk_skip [OF False])
    then obtain ns' where w: "realloc_walk p old new ns = Some ns'" and b: "bs' = cur # ns'"
      by (auto simp del: realloc_walk.simps)
    from oks w have "list_all block_ok ns'"
      by (rule Cons.IH)
    with ok show ?thesis
      by (simp add: b)
  next
    case True
    then have t1: "base cur \<le> p" and t2: "p < end_p cur"
      by simp_all
    note h = realloc_walk_head [OF t1 t2 Cons.prems(2)]
    from h have last_one: "p + old = bump cur"
      and bs': "bs' = cur\<lparr>bump := p + new\<rparr> # ns"
      and room: "bump cur + (if old < new then new - old else 0) \<le> end_p cur \<or> new < old"
      by blast+
    have uo: "unat (p + old) = unat p + unat old" and un: "unat (p + new) = unat p + unat new"
      using assms(2,3) by (simp_all add: unat_add_lem [THEN iffD1])
    have "p + new \<le> end_p cur"
    proof (cases "old < new")
      case grow: True
      have eq: "p + new = bump cur + (new - old)"
        by (simp add: last_one [symmetric])
      from grow room have "bump cur + (new - old) \<le> end_p cur"
        by auto
      then show ?thesis
        unfolding eq .
    next
      case False
      then have "unat (p + new) \<le> unat (p + old)"
        by (simp add: uo un word_le_nat_alt word_less_nat_alt)
      with ok show ?thesis
        by (simp add: last_one block_ok_def word_le_nat_alt)
    qed
    moreover from t1 have "base cur \<le> p + new"
      by (simp add: un word_le_nat_alt)
    ultimately have "block_ok (cur\<lparr>bump := p + new\<rparr>)"
      by (simp add: block_ok_def)
    with oks show ?thesis
      by (simp add: bs')
  qed
qed

lemma chain_root_rest [simp]: "chain (a\<lparr>root := r, rest := rs\<rparr>) = r # rs"
  by (simp add: chain_def)

lemma realloc_chain_ok:
  assumes "chain_ok a" and "call_fits h a (Realloc p old_size new_size)"
  shows "chain_ok (fst (snd (arena_realloc h a m p old_size new_size)))"
proof (cases rule: realloc_cases [where h = h and a = a and m = m and p = p
      and old_size = old_size and new_size = new_size])
  case free
  show ?thesis
    unfolding free(2) using assms(1) by simp
next
  case fresh
  from assms(2) fresh(1,2) have "alloc_safe h a new_size"
    by simp
  with assms(1) have "chain_ok (snd (arena_alloc h a new_size))"
    by (rule alloc_chain_ok)
  then show ?thesis
    unfolding fresh(3) by simp
next
  case (in_place r rs)
  from assms(2) in_place(1,2) have
    "unat p + unat (align_up old_size ARENA_ALIGNMENT) < 2 ^ 64"
    "unat p + unat (align_up new_size ARENA_ALIGNMENT) < 2 ^ 64"
    by simp_all
  note fits = this
  from assms(1) have "list_all block_ok (chain a)"
    by (simp add: chain_ok_def)
  then have "list_all block_ok (r # rs)"
    using fits in_place(3) by (rule realloc_walk_ok)
  then show ?thesis
    unfolding in_place(4) by (simp add: chain_ok_def)
next
  case copy
  from assms(2) copy(1,2) have "alloc_safe h a (align_up new_size ARENA_ALIGNMENT)"
    by simp
  with assms(1) have "chain_ok (snd (arena_alloc h a (align_up new_size ARENA_ALIGNMENT)))"
    by (rule alloc_chain_ok)
  then show ?thesis
    unfolding copy(4) by simp
qed

lemma capacities_of_spans:
  assumes "map span bs = map span cs"
  shows "map (\<lambda>b. unat (capacity b)) bs = map (\<lambda>b. unat (capacity b)) cs"
proof -
  have f: "(\<lambda>b. unat (capacity b)) = (\<lambda>s. unat (snd s - fst s)) \<circ> span"
    by (rule ext) (simp add: span_def capacity_def)
  show ?thesis
    unfolding f map_map [symmetric] by (simp only: assms)
qed

lemma realloc_total_capacity:
  assumes "total_capacity a < 2 ^ 64" and "call_fits h a (Realloc p old_size new_size)"
  shows "total_capacity (fst (snd (arena_realloc h a m p old_size new_size))) < 2 ^ 64"
proof (cases rule: realloc_cases [where h = h and a = a and m = m and p = p
      and old_size = old_size and new_size = new_size])
  case free
  show ?thesis
    unfolding free(2) using assms(1) by simp
next
  case fresh
  from assms(2) fresh(1,2) have "alloc_safe h a new_size"
    by simp
  with assms(1) have "total_capacity (snd (arena_alloc h a new_size)) < 2 ^ 64"
    by (rule alloc_total_capacity)
  then show ?thesis
    unfolding fresh(3) by simp
next
  case (in_place r rs)
  from in_place(3) have "map span (r # rs) = map span (chain a)"
    by (rule realloc_walk_spans)
  then have "map (\<lambda>b. unat (capacity b)) (r # rs) = map (\<lambda>b. unat (capacity b)) (chain a)"
    by (rule capacities_of_spans)
  then have "total_capacity (a\<lparr>root := r, rest := rs\<rparr>) = total_capacity a"
    by (simp only: total_capacity_def chain_root_rest)
  with assms(1) show ?thesis
    unfolding in_place(4) by simp
next
  case copy
  from assms(2) copy(1,2) have "alloc_safe h a (align_up new_size ARENA_ALIGNMENT)"
    by simp
  with assms(1) have
    "total_capacity (snd (arena_alloc h a (align_up new_size ARENA_ALIGNMENT))) < 2 ^ 64"
    by (rule alloc_total_capacity)
  then show ?thesis
    unfolding copy(4) by simp
qed

lemma realloc_markers [simp]:
  "markers (fst (snd (arena_realloc h a m p old_size new_size))) = markers a"
proof (cases rule: realloc_cases [where h = h and a = a and m = m and p = p
      and old_size = old_size and new_size = new_size])
  case free
  show ?thesis unfolding free(2) by simp
next
  case fresh
  show ?thesis unfolding fresh(3) by simp
next
  case (in_place r rs)
  show ?thesis unfolding in_place(4) by simp
next
  case copy
  show ?thesis unfolding copy(4) by simp
qed

subsection \<open>Every call keeps the arena well-formed\<close>

lemma pop_walk_total:
  "sum_list (map (\<lambda>b. unat (capacity b)) (pop_walk g c bs))
     \<le> sum_list (map (\<lambda>b. unat (capacity b)) bs)"
  by (induction bs arbitrary: c) (simp_all add: Let_def)

lemma pop_total_capacity: "total_capacity (arena_pop_marker a) \<le> total_capacity a"
proof (cases "markers a = []")
  case True
  then show ?thesis by (simp add: chain_pop_marker_empty)
next
  case False
  then show ?thesis
    using pop_walk_total [of "last (markers a)" 0 "chain a"]
    by (simp add: total_capacity_def chain_pop_marker)
qed

lemma pop_chain_ok: "chain_ok a \<Longrightarrow> chain_ok (arena_pop_marker a)"
  using pop_walk_ok [of 0 "last (markers a)" "chain a"]
  by (cases "markers a = []") (simp_all add: chain_pop_marker chain_pop_marker_empty chain_ok_def)

lemma chain_push_marker [simp]: "chain (arena_push_marker h a) = chain a"
  by (simp add: arena_push_marker_def chain_def Let_def)

lemma chain_reset: "chain (arena_reset a) = [(root a)\<lparr>bump := base (root a)\<rparr>]"
  by (simp add: arena_reset_def chain_def)

lemma reset_chain_ok: "chain_ok a \<Longrightarrow> chain_ok (arena_reset a)"
  by (auto simp: chain_ok_def chain_def arena_reset_def block_ok_def)

lemma reset_total_capacity: "total_capacity (arena_reset a) \<le> total_capacity a"
  by (simp add: total_capacity_def chain_def arena_reset_def)

lemma step_chain_ok:
  assumes "chain_ok a" and "call_fits h a c"
  shows "chain_ok (fst (run_call h c (a, m)))"
proof (cases c)
  case (Alloc n)
  with assms show ?thesis by (simp add: alloc_chain_ok)
next
  case (Calloc num sz)
  with assms show ?thesis by (simp add: calloc_arena alloc_chain_ok)
next
  case (Realloc p old_size new_size)
  with assms show ?thesis by (simp only: run_call.simps realloc_chain_ok)
next
  case (Strdup s)
  with assms show ?thesis
    by (cases s) (simp_all add: strdup_arena strdup_none alloc_chain_ok)
next
  case Push_marker
  with assms(1) show ?thesis by (simp add: chain_ok_def)
next
  case Pop_marker
  with assms(1) show ?thesis by (simp add: pop_chain_ok)
next
  case Reset
  with assms(1) show ?thesis by (simp add: reset_chain_ok)
qed

lemma step_total_capacity:
  assumes "total_capacity a < 2 ^ 64" and "call_fits h a c"
  shows "total_capacity (fst (run_call h c (a, m))) < 2 ^ 64"
proof (cases c)
  case (Alloc n)
  with assms show ?thesis
    using alloc_total_capacity [of a h n] by simp
next
  case (Calloc num sz)
  with assms show ?thesis
    using alloc_total_capacity [of a h "num * sz"] by (simp add: calloc_arena)
next
  case (Realloc p old_size new_size)
  with assms show ?thesis
    using realloc_total_capacity [of a h p old_size new_size m] by simp
next
  case (Strdup s)
  show ?thesis
  proof (cases s)
    case None
    with Strdup assms(1) show ?thesis by (simp add: strdup_none)
  next
    case (Some t)
    with Strdup assms show ?thesis
      using alloc_total_capacity [of a h "of_nat (length t) + 1"] by (simp add: strdup_arena)
  qed
next
  case Push_marker
  with assms(1) show ?thesis by (simp add: total_capacity_def)
next
  case Pop_marker
  with assms(1) show ?thesis
    using pop_total_capacity [of a] by simp
next
  case Reset
  with assms(1) show ?thesis
    using reset_total_capacity [of a] by simp
qed

lemma step_arena_ok:
  "arena_ok a \<Longrightarrow> call_fits h a c \<Longrightarrow> arena_ok (fst (run_call h c (a, m)))"
  unfolding arena_ok_def
  using step_chain_ok [of a h c m] step_total_capacity [of a h c m] by simp

lemma create_arena_ok:
  assumes "arena_create h n = Some a" and "create_fits h n"
  shows "arena_ok a"
proof -
  let ?sz = "if n = 0 then ARENA_DEFAULT_SIZE else n"
  from assms(1) have a: "a = \<lparr>root = \<lparr>base = buf h, bump = buf h, end_p = buf h + ?sz\<rparr>,
      rest = [], markers = [], marker_cap = ARENA_INITIAL_MARKER_CAP\<rparr>" and "buf h \<noteq> NULL"
    by (auto simp: arena_create_def Let_def split: if_splits)
  with assms(2) have "unat (buf h) + unat ?sz < 2 ^ 64"
    by (simp add: create_fits_def)
  then have "unat (buf h + ?sz) = unat (buf h) + unat ?sz"
    by (simp add: unat_add_lem [THEN iffD1])
  then have "block_ok \<lparr>base = buf h, bump = buf h, end_p = buf h + ?sz\<rparr>"
    by (simp add: block_ok_def word_le_nat_alt)
  moreover have "unat ?sz < 2 ^ 64"
    using unsigned_less [of ?sz] by simp
  ultimately show ?thesis
    by (simp add: a arena_ok_def chain_ok_def chain_def total_capacity_def)
qed

lemma reach_arena_ok: "reach P a \<Longrightarrow> arena_ok a"
  by (induction rule: reach.induct) (auto intro: create_arena_ok step_arena_ok)

lemma create64: "arena_create (heap_at 0x1000) 64 = Some arena64"
  by (simp add: arena_create_def heap_at_def arena64_def ARENA_INITIAL_MARKER_CAP_def)

lemma reach_arena64: "reach P arena64"
  by (rule reach_create [of "heap_at 0x1000" 64]) (simp_all add: create64, simp add: create_fits_def heap_at_def)

subsection \<open>Runs from the 64-byte arena\<close>

lemma reach_step:
  assumes "reach P a" and "P c" and "call_fits h a c" and "fst (run_call h c (a, m)) = a'"
  shows "reach P a'"
  using reach_call [OF assms(1-3), of m] assms(4) by simp

lemmas run_defs = heap_at_def marked_def align_up_def ARENA_ALIGNMENT_def arena_alloc_def
  set_last_block_def arena_push_marker_def get_current_position_def arena_realloc_def
  arena_pop_marker_def alloc_safe_def address_fits_def reply_fits_def chain_def
  new_block_size_def ARENA_DEFAULT_SIZE_def capacity_def total_capacity_def

lemma reach_marked64: "reach P (marked 0x1000 [])"
  using reach_arena64 [of P] by (simp add: arena64_def marked_def)

subsection \<open>What a successful arena_alloc returns\<close>

lemma last_set_last_block [simp]: "last (chain (set_last_block a b)) = b"
  by (simp add: chain_set_last_block)

lemma alloc_success:
  fixes h a n
  defines "p \<equiv> fst (arena_alloc h a n)" and "a' \<equiv> snd (arena_alloc h a n)"
    and "bytes \<equiv> align_up n ARENA_ALIGNMENT" and "l \<equiv> last (chain a)"
  defines "t \<equiv> last (chain a')"
  assumes "p \<noteq> NULL" and "alloc_fits h a n"
  shows "n \<noteq> 0" and "unat n \<le> unat bytes" and "0 < unat bytes"
    and "bump t = p + bytes" and "unat p + unat bytes < 2 ^ 64"
    and "(chain a' = butlast (chain a) @ [t] \<and> span t = span l \<and> p = bump l \<and>
            bump t \<le> end_p t) \<or>
         (chain a' = chain a @ [t] \<and> p = base t \<and> bump t \<le> end_p t)"
proof -
  from assms(6) show n: "n \<noteq> 0"
    by (auto simp: p_def alloc_zero)
  with assms(7) have fits: "unat n + 7 < 2 ^ 64" "unat (bump l) + unat bytes < 2 ^ 64"
    and reply: "reply_fits h a n"
    by (simp_all add: alloc_fits_def request_fits_def address_fits_def last_chain l_def bytes_def)
  from fits(1) show "unat n \<le> unat bytes"
    unfolding bytes_def by (rule align_up_ge)
  from fits(1) n show "0 < unat bytes"
    unfolding bytes_def by (rule align_up_nonzero)
  show "bump t = p + bytes" "unat p + unat bytes < 2 ^ 64"
    "(chain a' = butlast (chain a) @ [t] \<and> span t = span l \<and> p = bump l \<and>
        bump t \<le> end_p t) \<or>
     (chain a' = chain a @ [t] \<and> p = base t \<and> bump t \<le> end_p t)"
  proof (atomize (full), cases rule: alloc_cases [where h = h and a = a and n = n])
    case null
    with assms(6) show "bump t = p + bytes \<and> unat p + unat bytes < 2 ^ 64 \<and>
      ((chain a' = butlast (chain a) @ [t] \<and> span t = span l \<and> p = bump l \<and>
        bump t \<le> end_p t) \<or>
       (chain a' = chain a @ [t] \<and> p = base t \<and> bump t \<le> end_p t))"
      by (simp add: p_def)
  next
    case in_tail
    from in_tail(3) have "p = bump l" and "a' = set_last_block a (l\<lparr>bump := bump l + bytes\<rparr>)"
      by (simp_all add: p_def a'_def l_def bytes_def)
    then have "t = l\<lparr>bump := bump l + bytes\<rparr>" "chain a' = butlast (chain a) @ [t]"
      by (simp_all add: t_def chain_set_last_block)
    with \<open>p = bump l\<close> fits(2) in_tail(2)
    show "bump t = p + bytes \<and> unat p + unat bytes < 2 ^ 64 \<and>
      ((chain a' = butlast (chain a) @ [t] \<and> span t = span l \<and> p = bump l \<and>
        bump t \<le> end_p t) \<or>
       (chain a' = chain a @ [t] \<and> p = base t \<and> bump t \<le> end_p t))"
      by (simp add: l_def bytes_def)
  next
    case grown
    let ?sz = "new_block_size (capacity l) bytes"
    let ?nb = "\<lparr>base = buf h, bump = buf h + bytes, end_p = buf h + ?sz\<rparr>"
    from grown(4) have "p = buf h" and "a' = a\<lparr>rest := rest a @ [?nb]\<rparr>"
      by (simp_all add: p_def a'_def l_def bytes_def)
    then have t: "t = ?nb" and c: "chain a' = chain a @ [t]"
      by (simp_all add: t_def chain_append_rest)
    from reply grown(3) have "unat (buf h) + unat ?sz < 2 ^ 64"
      by (simp add: reply_fits_def Let_def last_chain l_def bytes_def)
    then have "block_ok ?nb" and "unat (buf h) + unat bytes < 2 ^ 64"
      using new_block_size_ge [of bytes "capacity l"] by (simp_all add: block_ok_fresh)
    with t c \<open>p = buf h\<close>
    show "bump t = p + bytes \<and> unat p + unat bytes < 2 ^ 64 \<and>
      ((chain a' = butlast (chain a) @ [t] \<and> span t = span l \<and> p = bump l \<and>
        bump t \<le> end_p t) \<or>
       (chain a' = chain a @ [t] \<and> p = base t \<and> bump t \<le> end_p t))"
      by (simp add: block_ok_def)
  qed
qed

lemma unat_add_mod8:
  assumes "unat x mod 8 = 0" and "unat y mod 8 = 0"
  shows "unat (x + y :: 64 word) mod 8 = 0"
proof -
  have "unat (x + y) mod 8 = ((unat x + unat y) mod 2 ^ 64) mod 8"
    by (simp add: unat_word_ariths)
  also have "\<dots> = (unat x + unat y) mod 8"
    by (rule mod_mod_cancel) simp
  also have "\<dots> = 0"
    using assms by presburger
  finally show ?thesis .
qed

subsection \<open>The global position as a number\<close>

lemma unat_sum_list:
  "sum_list (map unat ws) < 2 ^ 64 \<Longrightarrow> unat (sum_list ws :: 64 word) = sum_list (map unat ws)"
proof (induction ws)
  case Nil
  then show ?case by simp
next
  case (Cons w ws)
  then have "unat (sum_list ws) = sum_list (map unat ws)"
    by simp
  with Cons.prems show ?case
    by (simp add: unat_add_lem [THEN iffD1])
qed

lemma sum_list_butlast_le:
  "sum_list (butlast (ns :: nat list)) \<le> sum_list ns"
  by (induction ns) auto

lemma total_capacity_split:
  "total_capacity a =
     sum_list (map (\<lambda>b. unat (capacity b)) (butlast (chain a))) + unat (capacity (last (chain a)))"
proof -
  have "chain a = butlast (chain a) @ [last (chain a)]"
    by simp
  then have "map (\<lambda>b. unat (capacity b)) (chain a) =
      map (\<lambda>b. unat (capacity b)) (butlast (chain a)) @ [unat (capacity (last (chain a)))]"
    by (metis list.simps(8,9) map_append)
  then show ?thesis
    by (simp add: total_capacity_def)
qed

lemma offset_le_capacity:
  assumes "block_ok l"
  shows "unat (bump l - base l) \<le> unat (capacity l)"
proof -
  from assms have "base l \<le> bump l" and "bump l \<le> end_p l" and "base l \<le> end_p l"
    by (auto simp: block_ok_def)
  then have "unat (bump l - base l) = unat (bump l) - unat (base l)"
    and "unat (capacity l) = unat (end_p l) - unat (base l)"
    and "unat (bump l) \<le> unat (end_p l)"
    by (simp_all add: capacity_def unat_sub word_le_nat_alt)
  then show ?thesis
    by simp
qed

lemma unat_position:
  assumes "arena_ok a"
  shows "unat (get_current_position a) =
           sum_list (map (\<lambda>b. unat (capacity b)) (butlast (chain a))) +
           unat (bump (last (chain a)) - base (last (chain a)))"
proof -
  let ?l = "last (chain a)"
  let ?pre = "sum_list (map (\<lambda>b. unat (capacity b)) (butlast (chain a)))"
  from assms have ok: "block_ok ?l" and tot: "total_capacity a < 2 ^ 64"
    by (simp_all add: arena_ok_def chain_ok_def list_all_iff)
  from tot have pre: "?pre + unat (capacity ?l) < 2 ^ 64"
    by (simp add: total_capacity_split)
  then have "sum_list (map unat (map capacity (butlast (chain a)))) < 2 ^ 64"
    by (simp add: comp_def)
  then have "unat (sum_list (map capacity (butlast (chain a)))) = ?pre"
    by (simp add: unat_sum_list comp_def)
  moreover have "unat (bump ?l - base ?l) \<le> unat (capacity ?l)"
    using ok by (rule offset_le_capacity)
  ultimately show ?thesis
    using pre by (simp add: position_chain unat_add_lem [THEN iffD1])
qed

lemma position_le_capacity:
  assumes "arena_ok a"
  shows "unat (get_current_position a) \<le> total_capacity a"
proof -
  from assms have "block_ok (last (chain a))"
    by (simp add: arena_ok_def chain_ok_def list_all_iff)
  then show ?thesis
    using offset_le_capacity [of "last (chain a)"]
    by (simp add: unat_position [OF assms] total_capacity_split)
qed

subsection \<open>Where the walk of arena_pop_marker stops\<close>

lemma pop_walk_hit:
  assumes "bs \<noteq> []"
    and "unat c + sum_list (map (\<lambda>b. unat (capacity b)) bs) < 2 ^ 64"
    and "unat g \<le> unat c + sum_list (map (\<lambda>b. unat (capacity b)) bs)"
  shows "\<exists>r rs. pop_walk g c (bs @ es) = r # rs \<and> position_loop c r rs = g"
  using assms
proof (induction bs arbitrary: c)
  case Nil
  then show ?case by simp
next
  case (Cons b bs)
  let ?k = "end_p b - base b"
  from Cons.prems(2) have nowrap: "unat (c + ?k) = unat c + unat ?k"
    by (simp add: capacity_def unat_add_lem [THEN iffD1])
  show ?case
  proof (cases "g \<le> c + ?k")
    case True
    then show ?thesis by simp
  next
    case False
    then have far: "unat c + unat ?k < unat g"
      by (simp add: word_le_nat_alt nowrap)
    with Cons.prems(3) have "bs \<noteq> []"
      by (auto simp: capacity_def)
    moreover from Cons.prems(2) have
      "unat (c + ?k) + sum_list (map (\<lambda>b. unat (capacity b)) bs) < 2 ^ 64"
      by (simp add: nowrap capacity_def)
    moreover from Cons.prems(3) have
      "unat g \<le> unat (c + ?k) + sum_list (map (\<lambda>b. unat (capacity b)) bs)"
      by (simp add: nowrap capacity_def)
    ultimately obtain r rs where "pop_walk g (c + ?k) (bs @ es) = r # rs"
      and "position_loop (c + ?k) r rs = g"
      using Cons.IH [of "c + ?k"] by blast
    with False show ?thesis
      by simp
  qed
qed

lemma prefix_map_split:
  assumes "prefix (map f xs) (map f ys)"
  shows "\<exists>bs es. ys = bs @ es \<and> map f bs = map f xs"
proof -
  from assms obtain zs where "map f ys = map f xs @ zs"
    by (auto simp: prefix_def)
  then show ?thesis
    by (auto simp: map_eq_append_conv)
qed

lemma pop_marker_position:
  assumes "arena_ok a0" and "prefix (map span (chain a0)) (map span (chain a))"
    and "markers a \<noteq> []" and "unat (last (markers a)) \<le> total_capacity a0"
  shows "get_current_position (arena_pop_marker a) = last (markers a)"
proof -
  let ?g = "last (markers a)"
  from assms(2) obtain bs es where split: "chain a = bs @ es"
    and spans: "map span bs = map span (chain a0)"
    using prefix_map_split by blast
  from spans have caps: "map (\<lambda>b. unat (capacity b)) bs = map (\<lambda>b. unat (capacity b)) (chain a0)"
    by (rule capacities_of_spans)
  from spans have "bs \<noteq> []"
    by auto
  moreover from assms(1) caps have "unat (0 :: size_t) + sum_list (map (\<lambda>b. unat (capacity b)) bs) < 2 ^ 64"
    by (simp add: arena_ok_def total_capacity_def)
  moreover from assms(4) caps have "unat ?g \<le> unat (0 :: size_t) + sum_list (map (\<lambda>b. unat (capacity b)) bs)"
    by (simp add: total_capacity_def)
  ultimately obtain r rs where w: "pop_walk ?g 0 (bs @ es) = r # rs"
    and p: "position_loop 0 r rs = ?g"
    using pop_walk_hit [of bs 0 ?g es] by blast
  from w split have "pop_walk ?g 0 (root a # rest a) = r # rs"
    by (simp add: chain_def)
  with assms(3) have "arena_pop_marker a = a\<lparr>markers := butlast (markers a), root := r, rest := rs\<rparr>"
    by (simp add: arena_pop_marker_def Let_def del: pop_walk.simps)
  with p show ?thesis
    by (simp add: get_current_position_def)
qed

subsection \<open>Allocating calls leave the markers and the spans of the blocks\<close>

lemma alloc_spans: "prefix (map span (chain a)) (map span (chain (snd (arena_alloc h a n))))"
proof (cases rule: alloc_cases [where h = h and a = a and n = n])
  case null
  then show ?thesis by simp
next
  case in_tail
  have "map span (butlast (chain a) @
      [(last (chain a))\<lparr>bump := bump (last (chain a)) + align_up n ARENA_ALIGNMENT\<rparr>]) =
      map span (chain a)"
    by (rule map_set_last) simp_all
  then show ?thesis
    by (simp only: in_tail(3) snd_conv chain_set_last_block prefix_order.refl)
next
  case grown
  show ?thesis
    unfolding grown(4) by (simp add: chain_append_rest)
qed

lemma realloc_spans:
  "prefix (map span (chain a))
     (map span (chain (fst (snd (arena_realloc h a m p old_size new_size)))))"
proof (cases rule: realloc_cases [where h = h and a = a and m = m and p = p
      and old_size = old_size and new_size = new_size])
  case free
  show ?thesis unfolding free(2) by simp
next
  case fresh
  show ?thesis unfolding fresh(3) by (simp add: alloc_spans)
next
  case (in_place r rs)
  from in_place(3) have "map span (r # rs) = map span (chain a)"
    by (rule realloc_walk_spans)
  then show ?thesis
    unfolding in_place(4) by (simp del: list.map)
next
  case copy
  show ?thesis unfolding copy(4) by (simp add: alloc_spans)
qed

lemma allocation_call:
  assumes "is_allocation c"
  shows "markers (fst (run_call h c (a, m))) = markers a \<and>
         prefix (map span (chain a)) (map span (chain (fst (run_call h c (a, m)))))"
proof (cases c)
  case (Alloc n)
  then show ?thesis by (simp add: alloc_spans)
next
  case (Calloc num sz)
  then show ?thesis by (simp add: calloc_arena alloc_spans)
next
  case (Realloc p old_size new_size)
  then show ?thesis by (simp add: realloc_spans)
next
  case (Strdup s)
  then show ?thesis
    by (cases s) (simp_all add: strdup_arena strdup_none alloc_spans)
qed (use assms in simp_all)

lemma allocation_calls:
  assumes "list_all (\<lambda>(h, c). is_allocation c) cs"
  shows "markers (fst (run_calls cs (a, m))) = markers a \<and>
         prefix (map span (chain a)) (map span (chain (fst (run_calls cs (a, m)))))"
  using assms
proof (induction cs arbitrary: a m)
  case Nil
  then show ?case by simp
next
  case (Cons hc cs)
  obtain h c where hc: "hc = (h, c)"
    by (cases hc)
  obtain a' m' where step: "run_call h c (a, m) = (a', m')"
    by (cases "run_call h c (a, m)")
  from Cons.prems hc have "is_allocation c" and rest: "list_all (\<lambda>(h, c). is_allocation c) cs"
    by simp_all
  then have one: "markers a' = markers a" "prefix (map span (chain a)) (map span (chain a'))"
    using allocation_call [of c h a m] step by simp_all
  from rest have "markers (fst (run_calls cs (a', m'))) = markers a'"
    and "prefix (map span (chain a')) (map span (chain (fst (run_calls cs (a', m')))))"
    using Cons.IH [of a' m'] by simp_all
  with one show ?case
    by (simp add: hc step)
qed

lemma push_marker_recorded:
  assumes "length (markers a) \<noteq> unat (marker_cap a) \<or> marks_ok h"
  shows "markers (arena_push_marker h a) = markers a @ [get_current_position a]"
  using assms by (auto simp: arena_push_marker_def Let_def)

lemma set_last_block_back:
  "chain (set_last_block (set_last_block a (l\<lparr>bump := x\<rparr>)) (l\<lparr>bump := x, bump := bump l\<rparr>)) =
     butlast (chain a) @ [l]"
  by (simp add: chain_set_last_block)

lemma position_of_chain: "chain a = chain b \<Longrightarrow> get_current_position a = get_current_position b"
  by (simp add: position_chain)

lemma global_offset_in_tail:
  assumes "n \<noteq> 0"
    and "bump (last (chain a)) + align_up n ARENA_ALIGNMENT \<le> end_p (last (chain a))"
  shows "fst (arena_alloc h a n) = bump (last (chain a))"
    and "global_offset (snd (arena_alloc h a n)) (fst (arena_alloc h a n)) = get_current_position a"
proof -
  let ?l = "last (chain a)"
  let ?l' = "?l\<lparr>bump := bump ?l + align_up n ARENA_ALIGNMENT\<rparr>"
  from assms have al: "arena_alloc h a n = (bump ?l, set_last_block a ?l')"
    by (intro alloc_in_tail) simp_all
  then show "fst (arena_alloc h a n) = bump ?l"
    by simp
  have "chain (set_last_block (set_last_block a ?l') (?l'\<lparr>bump := bump ?l\<rparr>)) = butlast (chain a) @ [?l]"
    by (simp add: chain_set_last_block)
  then have "chain (set_last_block (set_last_block a ?l') (?l'\<lparr>bump := bump ?l\<rparr>)) = chain a"
    by simp
  then have "get_current_position (set_last_block (set_last_block a ?l') (?l'\<lparr>bump := bump ?l\<rparr>)) =
      get_current_position a"
    by (rule position_of_chain)
  then show "global_offset (snd (arena_alloc h a n)) (fst (arena_alloc h a n)) = get_current_position a"
    by (simp add: al global_offset_def last_chain)
qed

subsection \<open>Calls that do not lower the position\<close>

lemma butlast_caps_of_spans:
  assumes "map span bs = map span cs"
  shows "map (\<lambda>b. unat (capacity b)) (butlast bs) = map (\<lambda>b. unat (capacity b)) (butlast cs)"
proof -
  from assms have "map span (butlast bs) = map span (butlast cs)"
    by (simp add: map_butlast)
  then show ?thesis
    by (rule capacities_of_spans)
qed

lemma last_span:
  assumes "map span bs = map span cs" and "bs \<noteq> []"
  shows "base (last bs) = base (last cs)"
proof -
  from assms have "cs \<noteq> []" by auto
  with assms have "span (last bs) = span (last cs)"
    by (metis last_map)
  then show ?thesis
    by (simp add: span_def)
qed

lemma position_mono:
  assumes "arena_ok a" and "arena_ok a'"
    and "map span (chain a') = map span (chain a)"
    and "bump (last (chain a)) \<le> bump (last (chain a'))"
  shows "get_current_position a \<le> get_current_position a'"
proof -
  let ?l = "last (chain a)" and ?l' = "last (chain a')"
  from assms(1,2) have "base ?l \<le> bump ?l" "base ?l' \<le> bump ?l'"
    by (simp_all add: arena_ok_def chain_ok_def list_all_iff block_ok_def)
  moreover from assms(3) have "base ?l' = base ?l"
    by (rule last_span) simp
  ultimately have "unat (bump ?l - base ?l) \<le> unat (bump ?l' - base ?l')"
    using assms(4) by (simp add: unat_sub word_le_nat_alt)
  moreover from assms(3) have
    "map (\<lambda>b. unat (capacity b)) (butlast (chain a')) =
     map (\<lambda>b. unat (capacity b)) (butlast (chain a))"
    by (rule butlast_caps_of_spans)
  ultimately show ?thesis
    by (simp add: word_le_nat_alt unat_position [OF assms(1)] unat_position [OF assms(2)])
qed

lemma alloc_position_mono:
  assumes "arena_ok a" and "alloc_safe h a n"
  shows "get_current_position a \<le> get_current_position (snd (arena_alloc h a n))"
proof -
  let ?a' = "snd (arena_alloc h a n)"
  let ?l = "last (chain a)" and ?bytes = "align_up n ARENA_ALIGNMENT"
  from assms have ok': "arena_ok ?a'"
    using alloc_chain_ok [of a h n] alloc_total_capacity [of a h n] by (simp add: arena_ok_def)
  show ?thesis
  proof (cases rule: alloc_cases [where h = h and a = a and n = n])
    case null
    then show ?thesis by simp
  next
    case in_tail
    let ?l' = "?l\<lparr>bump := bump ?l + ?bytes\<rparr>"
    from in_tail(3) have c: "chain ?a' = butlast (chain a) @ [?l']"
      by (simp add: chain_set_last_block)
    have "map span (butlast (chain a) @ [?l']) = map span (chain a)"
      by (rule map_set_last) simp_all
    with c have spans: "map span (chain ?a') = map span (chain a)"
      by simp
    from assms(2) in_tail(1) have "unat (bump ?l) + unat ?bytes < 2 ^ 64"
      by (simp add: alloc_safe_def address_fits_def last_chain)
    then have "bump ?l \<le> bump ?l + ?bytes"
      by (simp add: word_le_nat_alt unat_add_lem [THEN iffD1])
    with c have "bump ?l \<le> bump (last (chain ?a'))"
      by simp
    with assms(1) ok' spans show ?thesis
      by (rule position_mono)
  next
    case grown
    let ?nb = "\<lparr>base = buf h, bump = buf h + ?bytes,
      end_p = buf h + new_block_size (capacity ?l) ?bytes\<rparr>"
    from grown(4) have c: "chain ?a' = chain a @ [?nb]"
      by (simp add: chain_append_rest)
    then have "unat (get_current_position ?a') =
        total_capacity a + unat (bump ?nb - base ?nb)"
      by (simp add: unat_position [OF ok'] total_capacity_def)
    with position_le_capacity [OF assms(1)] show ?thesis
      by (simp add: word_le_nat_alt)
  qed
qed

lemma realloc_walk_split:
  assumes "realloc_walk p old new bs = Some bs'"
  shows "\<exists>pre cur post. bs = pre @ cur # post \<and> bs' = pre @ cur\<lparr>bump := p + new\<rparr> # post \<and>
           p + old = bump cur \<and> base cur \<le> p \<and> p < end_p cur \<and>
           containing_block p pre = None"
  using assms
proof (induction bs arbitrary: bs')
  case Nil
  then show ?case by simp
next
  case (Cons cur ns)
  show ?case
  proof (cases "base cur \<le> p \<and> p < end_p cur")
    case True
    then have "p + old = bump cur \<and> bs' = cur\<lparr>bump := p + new\<rparr> # ns"
      using realloc_walk_head [of cur p old new ns bs'] Cons.prems by blast
    with True have "cur # ns = [] @ cur # ns \<and> bs' = [] @ cur\<lparr>bump := p + new\<rparr> # ns \<and>
        p + old = bump cur \<and> base cur \<le> p \<and> p < end_p cur \<and>
        containing_block p [] = None"
      by simp
    then show ?thesis
      by blast
  next
    case False
    from Cons.prems have "map_option ((#) cur) (realloc_walk p old new ns) = Some bs'"
      by (simp only: realloc_walk_skip [OF False])
    then obtain ns' where w: "realloc_walk p old new ns = Some ns'" and b: "bs' = cur # ns'"
      by (auto simp del: realloc_walk.simps)
    from Cons.IH [OF w] obtain pre c post where "ns = pre @ c # post"
      and "ns' = pre @ c\<lparr>bump := p + new\<rparr> # post" and "p + old = bump c"
      and "base c \<le> p" and "p < end_p c" and "containing_block p pre = None"
      by blast
    with b False have "cur # ns = (cur # pre) @ c # post \<and>
        bs' = (cur # pre) @ c\<lparr>bump := p + new\<rparr> # post \<and> p + old = bump c \<and>
        base c \<le> p \<and> p < end_p c \<and> containing_block p (cur # pre) = None"
      by simp
    then show ?thesis
      by blast
  qed
qed
subsection \<open>The search of arena_realloc and the containing block\<close>

lemma realloc_walk_none:
  "containing_block p bs = None \<Longrightarrow> realloc_walk p old new bs = None"
proof (induction bs)
  case Nil
  then show ?case by simp
next
  case (Cons b bs)
  from Cons.prems have out: "\<not> (base b \<le> p \<and> p < end_p b)" and "containing_block p bs = None"
    by (auto split: if_splits)
  then have "realloc_walk p old new bs = None"
    using Cons.IH by simp
  then show ?case
    by (simp only: realloc_walk_skip [OF out] option.map)
qed

lemma realloc_walk_some:
  assumes "containing_block p bs = Some b"
  shows "realloc_walk p old new bs =
           (if p + old = bump b \<and>
               (bump b + (if old < new then new - old else 0) \<le> end_p b \<or> new < old)
            then Some (resize_in p (p + new) bs) else None)"
  using assms
proof (induction bs)
  case Nil
  then show ?case by simp
next
  case (Cons c bs)
  show ?case
  proof (cases "base c \<le> p \<and> p < end_p c")
    case True
    then have t1: "base c \<le> p" and t2: "p < end_p c"
      by simp_all
    with Cons.prems have "b = c"
      by simp
    with t1 t2 show ?thesis
      by (auto simp: Let_def)
  next
    case False
    with Cons.prems have "containing_block p bs = Some b"
      by simp
    then have "realloc_walk p old new bs =
        (if p + old = bump b \<and>
            (bump b + (if old < new then new - old else 0) \<le> end_p b \<or> new < old)
         then Some (resize_in p (p + new) bs) else None)"
      by (rule Cons.IH)
    moreover have "resize_in p (p + new) (c # bs) = c # resize_in p (p + new) bs"
      by (simp only: resize_in.simps False if_False)
    ultimately show ?thesis
      unfolding realloc_walk_skip [OF False]
      by (simp del: resize_in.simps realloc_walk.simps)
  qed
qed

lemma realloc_walk_eligible:
  "realloc_walk p (align_up old_size ARENA_ALIGNMENT) (align_up new_size ARENA_ALIGNMENT) (chain a) =
     (if last_in_block a p old_size \<and> has_room a p old_size new_size
      then Some (resize_in p (p + align_up new_size ARENA_ALIGNMENT) (chain a)) else None)"
proof (cases "containing_block p (chain a)")
  case None
  then show ?thesis
    by (simp add: realloc_walk_none last_in_block_def)
next
  case (Some b)
  then show ?thesis
    by (simp only: realloc_walk_some [OF Some] last_in_block_def has_room_def Let_def option.case)
qed

lemma realloc_in_place:
  assumes "p \<noteq> NULL" and "new_size \<noteq> 0"
    and "last_in_block a p old_size" and "has_room a p old_size new_size"
  shows "arena_realloc h a m p old_size new_size =
           (p, with_chain a (resize_in p (p + align_up new_size ARENA_ALIGNMENT) (chain a)), m)"
proof (cases rule: realloc_cases [where h = h and a = a and m = m and p = p
      and old_size = old_size and new_size = new_size])
  case free
  with assms(2) show ?thesis by simp
next
  case fresh
  with assms(1) show ?thesis by simp
next
  case (in_place r rs)
  from in_place(3) assms(3,4)
  have "resize_in p (p + align_up new_size ARENA_ALIGNMENT) (chain a) = r # rs"
    by (simp add: realloc_walk_eligible)
  then show ?thesis
    unfolding in_place(4) by (simp add: with_chain_def)
next
  case copy
  with assms(3,4) show ?thesis
    by (simp add: realloc_walk_eligible)
qed

lemma realloc_copy:
  assumes "p \<noteq> NULL" and "new_size \<noteq> 0"
    and "\<not> (last_in_block a p old_size \<and> has_room a p old_size new_size)"
  shows "arena_realloc h a m p old_size new_size =
           (fst (arena_alloc h a (align_up new_size ARENA_ALIGNMENT)),
            snd (arena_alloc h a (align_up new_size ARENA_ALIGNMENT)),
            if fst (arena_alloc h a (align_up new_size ARENA_ALIGNMENT)) \<noteq> NULL
            then memcpy m (fst (arena_alloc h a (align_up new_size ARENA_ALIGNMENT))) p
                   (if align_up old_size ARENA_ALIGNMENT < align_up new_size ARENA_ALIGNMENT
                    then align_up old_size ARENA_ALIGNMENT
                    else align_up new_size ARENA_ALIGNMENT)
            else m)"
proof (cases rule: realloc_cases [where h = h and a = a and m = m and p = p
      and old_size = old_size and new_size = new_size])
  case free
  with assms(2) show ?thesis by simp
next
  case fresh
  with assms(1) show ?thesis by simp
next
  case (in_place r rs)
  from assms(3) have "realloc_walk p (align_up old_size ARENA_ALIGNMENT)
      (align_up new_size ARENA_ALIGNMENT) (chain a) = None"
    by (simp only: realloc_walk_eligible if_False)
  with in_place(3) show ?thesis
    by simp
next
  case copy
  then show ?thesis by simp
qed

lemma containing_block_append:
  "containing_block p pre = None \<Longrightarrow> containing_block p (pre @ bs) = containing_block p bs"
  by (induction pre) (auto split: if_splits)

subsection \<open>What memcpy copies\<close>

lemma copy_bytes_frame:
  "(\<And>j. j < k \<Longrightarrow> x \<noteq> dst + of_nat j) \<Longrightarrow> copy_bytes k m dst src x = m x"
proof (induction k arbitrary: m dst src)
  case 0
  then show ?case by simp
next
  case (Suc k)
  have "x \<noteq> dst + 1 + of_nat j" if "j < k" for j
    using Suc.prems [of "Suc j"] that by (simp add: add.assoc)
  then have "copy_bytes k (m(dst := m src)) (dst + 1) (src + 1) x = (m(dst := m src)) x"
    by (rule Suc.IH)
  moreover from Suc.prems [of 0] have "x \<noteq> dst"
    by simp
  ultimately show ?case
    by simp
qed

lemma of_nat_nonzero:
  assumes "0 < n" and "n < 2 ^ 64"
  shows "(of_nat n :: 64 word) \<noteq> 0"
proof -
  from assms(2) have "unat (of_nat n :: 64 word) = n"
    by (simp add: unat_of_nat)
  with assms(1) show ?thesis
    by (metis less_numeral_extra(3) unat_0)
qed

lemma copy_bytes_at:
  assumes "k < 2 ^ 64"
    and "\<And>i j. i < k \<Longrightarrow> j < k \<Longrightarrow> src + of_nat i \<noteq> dst + of_nat j"
    and "i < k"
  shows "copy_bytes k m dst src (dst + of_nat i) = m (src + of_nat i)"
  using assms
proof (induction k arbitrary: m dst src i)
  case 0
  then show ?case by simp
next
  case (Suc k)
  let ?m = "m(dst := m src)"
  have apart: "src + 1 + of_nat i' \<noteq> dst + 1 + of_nat j'" if "i' < k" "j' < k" for i' j'
    using Suc.prems(2) [of "Suc i'" "Suc j'"] that by (simp add: add.assoc)
  show ?case
  proof (cases i)
    case 0
    have "dst \<noteq> dst + 1 + of_nat j" if "j < k" for j
    proof -
      from that Suc.prems(1) have "(of_nat (Suc j) :: 64 word) \<noteq> 0"
        by (intro of_nat_nonzero) simp_all
      then show ?thesis
        by (simp add: add.assoc)
    qed
    then have "copy_bytes k ?m (dst + 1) (src + 1) dst = ?m dst"
      by (rule copy_bytes_frame)
    with 0 show ?thesis
      by simp
  next
    case (Suc i')
    with Suc.prems(3) have i': "i' < k"
      by simp
    from Suc.prems(1) have "k < 2 ^ 64"
      by simp
    then have "copy_bytes k ?m (dst + 1) (src + 1) (dst + 1 + of_nat i') = ?m (src + 1 + of_nat i')"
      using apart i' by (rule Suc.IH)
    moreover have "src + of_nat i \<noteq> dst + of_nat 0"
      using Suc.prems(3) by (intro Suc.prems(2)) simp_all
    then have "src + 1 + of_nat i' \<noteq> dst"
      using Suc by (simp add: add.assoc)
    ultimately show ?thesis
      using Suc by (simp add: add.assoc)
  qed
qed

lemma regions_apart:
  fixes p q c :: "64 word"
  assumes "unat p + unat c \<le> unat q \<or> unat q + unat c \<le> unat p"
    and "unat p + unat c \<le> 2 ^ 64" and "unat q + unat c \<le> 2 ^ 64"
    and "i < unat c" and "j < unat c"
  shows "p + of_nat i \<noteq> q + of_nat j"
proof -
  have c: "unat c < 2 ^ 64"
    using unsigned_less [of c] by simp
  with assms(4,5) have "unat (of_nat i :: 64 word) = i" "unat (of_nat j :: 64 word) = j"
    by (simp_all add: unat_of_nat)
  with assms(2-5) have "unat (p + of_nat i) = unat p + i" "unat (q + of_nat j) = unat q + j"
    by (simp_all add: unat_add_lem [THEN iffD1])
  with assms(1,4,5) have "unat (p + of_nat i) \<noteq> unat (q + of_nat j)"
    by auto
  then show ?thesis
    by auto
qed

lemma memcpy_at:
  fixes p q c :: "64 word"
  assumes "unat p + unat c \<le> unat q \<or> unat q + unat c \<le> unat p"
    and "unat p + unat c \<le> 2 ^ 64" and "unat q + unat c \<le> 2 ^ 64"
    and "i < unat c"
  shows "memcpy m q p c (q + of_nat i) = m (p + of_nat i)"
proof -
  have "unat c < 2 ^ 64"
    using unsigned_less [of c] by simp
  moreover have "p + of_nat i' \<noteq> q + of_nat j'" if "i' < unat c" "j' < unat c" for i' j'
    using assms(1-3) that by (rule regions_apart)
  ultimately show ?thesis
    unfolding memcpy_def using assms(4) by (rule copy_bytes_at)
qed

subsection \<open>A fresh region does not overlap a live one\<close>

lemma fresh_region_apart:
  fixes h a n p old c
  defines "q \<equiv> fst (arena_alloc h a n)"
  assumes ok: "chain_ok a" and ap: "blocks_apart a" and live: "live_region a p old"
    and fits: "alloc_fits h a n" and reply: "reply_apart h a n" and q: "q \<noteq> NULL"
    and c1: "unat c \<le> unat old" and c2: "unat c \<le> unat (align_up n ARENA_ALIGNMENT)"
  shows "(unat p + unat c \<le> unat q \<or> unat q + unat c \<le> unat p) \<and> unat q + unat c < 2 ^ 64"
proof -
  let ?l = "last (chain a)" and ?bytes = "align_up n ARENA_ALIGNMENT"
  from live obtain b where b: "b \<in> set (chain a)" and bp: "base b \<le> p"
    and used: "unat p + unat old \<le> unat (bump b)"
    by (auto simp: live_region_def list_ex_iff)
  from ok b have okb: "unat (base b) \<le> unat (bump b)" "unat (bump b) \<le> unat (end_p b)"
    by (auto simp: chain_ok_def list_all_iff block_ok_def word_le_nat_alt)
  from ok have okl: "unat (base ?l) \<le> unat (bump ?l)"
    by (simp add: chain_ok_def list_all_iff block_ok_def word_le_nat_alt)
  from bp have bp': "unat (base b) \<le> unat p"
    by (simp add: word_le_nat_alt)
  show ?thesis
  proof (cases rule: alloc_cases [where h = h and a = a and n = n])
    case null
    with q show ?thesis
      by (simp add: q_def)
  next
    case in_tail
    from in_tail(3) have qq: "q = bump ?l"
      by (simp add: q_def)
    from fits in_tail(1) have nowrap: "unat (bump ?l) + unat ?bytes < 2 ^ 64"
      by (simp add: alloc_fits_def request_fits_def address_fits_def last_chain)
    with in_tail(2) have inside: "unat (bump ?l) + unat ?bytes \<le> unat (end_p ?l)"
      by (simp add: word_le_nat_alt unat_add_lem [THEN iffD1])
    have "unat p + unat c \<le> unat (bump ?l) \<or> unat (bump ?l) + unat c \<le> unat p"
    proof (cases "b = ?l")
      case True
      with used c1 show ?thesis
        by simp
    next
      case False
      with ap b have "apart b ?l"
        by (simp add: blocks_apart_def pairwise_def)
      then have "unat (end_p b) \<le> unat (base ?l) \<or> unat (end_p ?l) \<le> unat (base b)"
        by (simp add: apart_def word_le_nat_alt)
      with used c1 c2 okb okl bp' inside show ?thesis
        by linarith
    qed
    with nowrap c2 show ?thesis
      by (simp add: qq)
  next
    case grown
    let ?sz = "new_block_size (capacity ?l) ?bytes"
    from grown(4) have qq: "q = buf h"
      by (simp add: q_def)
    from fits grown(1,3) have nowrap: "unat (buf h) + unat ?sz < 2 ^ 64"
      by (simp add: alloc_fits_def reply_fits_def last_chain Let_def)
    then have e: "unat (buf h + ?sz) = unat (buf h) + unat ?sz"
      by (simp add: unat_add_lem [THEN iffD1])
    have sz: "unat ?bytes \<le> unat ?sz"
      by (rule new_block_size_ge)
    from reply b have "apart \<lparr>base = buf h, bump = buf h, end_p = buf h + ?sz\<rparr> b"
      by (simp add: reply_apart_def Let_def last_chain list_all_iff)
    then have "unat (buf h) + unat ?sz \<le> unat (base b) \<or> unat (end_p b) \<le> unat (buf h)"
      by (simp add: apart_def word_le_nat_alt e)
    with used c1 c2 okb bp' sz nowrap show ?thesis
      unfolding qq by linarith
  qed
qed


subsection \<open>Calls that do not lower the position\<close>

lemma realloc_position_mono:
  assumes "arena_ok a" and "call_fits h a (Realloc p old_size new_size)"
    and "\<not> shrinks_tail a (Realloc p old_size new_size)"
  shows "get_current_position a
           \<le> get_current_position (fst (snd (arena_realloc h a m p old_size new_size)))"
proof (cases rule: realloc_cases [where h = h and a = a and m = m and p = p
      and old_size = old_size and new_size = new_size])
  case free
  show ?thesis unfolding free(2) by simp
next
  case fresh
  from assms(2) fresh(1,2) have "alloc_safe h a new_size"
    by simp
  with assms(1) show ?thesis
    unfolding fresh(3) by (simp add: alloc_position_mono)
next
  case (in_place r rs)
  let ?old = "align_up old_size ARENA_ALIGNMENT" and ?new = "align_up new_size ARENA_ALIGNMENT"
  let ?a' = "a\<lparr>root := r, rest := rs\<rparr>"
  from assms(1,2) have ok': "arena_ok (fst (snd (arena_realloc h a m p old_size new_size)))"
    using realloc_chain_ok [of a h p old_size new_size m]
      realloc_total_capacity [of a h p old_size new_size m]
    by (simp add: arena_ok_def)
  then have ok'': "arena_ok ?a'"
    unfolding in_place(4) by simp
  from in_place(3) have spans: "map span (chain ?a') = map span (chain a)"
    using realloc_walk_spans [of p ?old ?new "chain a" "r # rs"] by (simp del: list.map)
  from assms(2) in_place(1,2) have
    fits: "unat p + unat ?old < 2 ^ 64" "unat p + unat ?new < 2 ^ 64"
    by simp_all
  from in_place(3) obtain pre cur post where bs: "chain a = pre @ cur # post"
    and bs': "r # rs = pre @ cur\<lparr>bump := p + ?new\<rparr> # post" and l: "p + ?old = bump cur"
    and none: "containing_block p pre = None"
    using realloc_walk_split by blast
  have "bump (last (chain a)) \<le> bump (last (r # rs))"
  proof (cases "post = []")
    case True
    with bs have "butlast (chain a) = pre"
      by simp
    with none have "containing_block p (butlast (chain a)) = None"
      by simp
    moreover from in_place(3) have "last_in_block a p old_size"
      by (simp add: realloc_walk_eligible split: if_splits)
    ultimately have "\<not> ?new < ?old"
      using assms(3) in_place(1,2) by (simp add: shrinks_tail_def)
    then have "unat ?old \<le> unat ?new"
      by (simp add: word_less_nat_alt)
    with fits have "p + ?old \<le> p + ?new"
      by (simp add: word_le_nat_alt unat_add_lem [THEN iffD1])
    with True bs bs' l show ?thesis
      by simp
  next
    case False
    with bs bs' show ?thesis
      by simp
  qed
  then have "bump (last (chain a)) \<le> bump (last (chain ?a'))"
    by simp
  with assms(1) ok'' spans have "get_current_position a \<le> get_current_position ?a'"
    by (rule position_mono)
  then show ?thesis
    unfolding in_place(4) by simp
next
  case copy
  from assms(2) copy(1,2) have "alloc_safe h a (align_up new_size ARENA_ALIGNMENT)"
    by simp
  with assms(1) show ?thesis
    unfolding copy(4) by (simp add: alloc_position_mono)
qed

lemma sorted_le_last: "sorted xs \<Longrightarrow> x \<in> set xs \<Longrightarrow> x \<le> last (xs :: 'a :: linorder list)"
  by (induction xs) auto

lemma shrink_position:
  assumes "shrinks_tail a (Realloc p old_size new_size)"
  shows "get_current_position (fst (snd (arena_realloc h a m p old_size new_size))) =
           global_offset a (p + align_up new_size ARENA_ALIGNMENT)"
proof -
  let ?old = "align_up old_size ARENA_ALIGNMENT" and ?new = "align_up new_size ARENA_ALIGNMENT"
  from assms have nn: "p \<noteq> NULL" "new_size \<noteq> 0"
    and none: "containing_block p (butlast (chain a)) = None"
    and l: "last_in_block a p old_size" and less: "?new < ?old"
    by (simp_all add: shrinks_tail_def)
  from l less have "has_room a p old_size new_size"
    by (auto simp: last_in_block_def has_room_def Let_def split: option.splits)
  with l have walk: "realloc_walk p ?old ?new (chain a) \<noteq> None"
    by (simp add: realloc_walk_eligible)
  show ?thesis
  proof (cases rule: realloc_cases [where h = h and a = a and m = m and p = p
        and old_size = old_size and new_size = new_size])
    case free
    with nn show ?thesis by simp
  next
    case fresh
    with nn show ?thesis by simp
  next
    case (in_place r rs)
    from in_place(3) obtain pre cur post where bs: "chain a = pre @ cur # post"
      and bs': "r # rs = pre @ cur\<lparr>bump := p + ?new\<rparr> # post"
      and inside: "base cur \<le> p" "p < end_p cur"
      and pre: "containing_block p pre = None"
      using realloc_walk_split by blast
    have "post = []"
    proof (rule ccontr)
      assume "post \<noteq> []"
      with bs have "butlast (chain a) = pre @ cur # butlast post"
        by (simp add: butlast_append)
      with pre inside have "containing_block p (butlast (chain a)) = Some cur"
        by (simp add: containing_block_append)
      with none show False
        by simp
    qed
    with bs bs' have "r # rs = butlast (chain a) @ [(last (chain a))\<lparr>bump := p + ?new\<rparr>]"
      by simp
    then have "chain (a\<lparr>root := r, rest := rs\<rparr>) =
        chain (set_last_block a ((last (chain a))\<lparr>bump := p + ?new\<rparr>))"
      by (simp add: chain_set_last_block)
    then have "get_current_position (a\<lparr>root := r, rest := rs\<rparr>) =
        get_current_position (set_last_block a ((last (chain a))\<lparr>bump := p + ?new\<rparr>))"
      by (rule position_of_chain)
    then show ?thesis
      unfolding in_place(4) by (simp add: global_offset_def last_chain)
  next
    case copy
    with walk show ?thesis by simp
  qed
qed

subsection \<open>The markers below the position\<close>

lemma markers_step:
  assumes "arena_ok a" and "sorted (markers a)"
    and "\<forall>g \<in> set (markers a). g \<le> get_current_position a"
    and "\<not> shrinks_below_marker a c" and "call_fits h a c"
  shows "sorted (markers (fst (run_call h c (a, m)))) \<and>
         (\<forall>g \<in> set (markers (fst (run_call h c (a, m)))).
            g \<le> get_current_position (fst (run_call h c (a, m))))"
proof (cases c)
  case (Alloc n)
  with assms(1,5) have "get_current_position a \<le> get_current_position (snd (arena_alloc h a n))"
    by (simp add: alloc_position_mono)
  with assms(2,3) Alloc show ?thesis
    by auto
next
  case (Calloc num sz)
  with assms(1,5) have
    "get_current_position a \<le> get_current_position (snd (arena_alloc h a (num * sz)))"
    by (simp add: alloc_position_mono)
  with assms(2,3) Calloc show ?thesis
    by (auto simp: calloc_arena)
next
  case (Realloc p old_size new_size)
  let ?a' = "fst (snd (arena_realloc h a m p old_size new_size))"
  have "\<forall>g \<in> set (markers a). g \<le> get_current_position ?a'"
  proof (cases "shrinks_tail a (Realloc p old_size new_size)")
    case False
    from assms(5) Realloc have "call_fits h a (Realloc p old_size new_size)"
      by simp
    with assms(1) have "get_current_position a \<le> get_current_position ?a'"
      using False by (rule realloc_position_mono)
    with assms(3) show ?thesis
      by auto
  next
    case True
    then have pos: "get_current_position ?a' =
        global_offset a (p + align_up new_size ARENA_ALIGNMENT)"
      by (rule shrink_position)
    show ?thesis
    proof (cases "markers a = []")
      case True
      then show ?thesis
        by simp
    next
      case False
      with assms(4) Realloc True have top: "last (markers a) \<le> get_current_position ?a'"
        by (simp add: shrinks_below_marker_def pos)
      from assms(2) have "\<forall>g \<in> set (markers a). g \<le> last (markers a)"
        by (simp add: sorted_le_last)
      with top show ?thesis
        by auto
    qed
  qed
  with assms(2) Realloc show ?thesis
    by simp
next
  case (Strdup s)
  show ?thesis
  proof (cases s)
    case None
    with Strdup assms(2,3) show ?thesis
      by (simp add: strdup_none)
  next
    case (Some t)
    with Strdup assms(1,5) have "get_current_position a
        \<le> get_current_position (snd (arena_alloc h a (of_nat (length t) + 1)))"
      by (simp add: alloc_position_mono)
    with assms(2,3) Strdup Some show ?thesis
      by (auto simp: strdup_arena)
  qed
next
  case Push_marker
  have pos: "get_current_position (arena_push_marker h a) = get_current_position a"
    by (rule position_of_chain) simp
  have "markers (arena_push_marker h a) = markers a \<or>
      markers (arena_push_marker h a) = markers a @ [get_current_position a]"
    by (auto simp: arena_push_marker_def Let_def)
  with assms(2,3) Push_marker show ?thesis
    by (auto simp: pos sorted_append)
next
  case Pop_marker
  show ?thesis
  proof (cases "markers a = []")
    case True
    with Pop_marker show ?thesis
      by (simp add: chain_pop_marker_empty)
  next
    case False
    then have split: "markers a = butlast (markers a) @ [last (markers a)]"
      by simp
    from False assms(3) have "last (markers a) \<le> get_current_position a"
      by simp
    with position_le_capacity [OF assms(1)] have "unat (last (markers a)) \<le> total_capacity a"
      by (simp add: word_le_nat_alt)
    with assms(1) False have pos: "get_current_position (arena_pop_marker a) = last (markers a)"
      by (intro pop_marker_position [of a]) simp_all
    from assms(2) split have "sorted (butlast (markers a))"
      and "\<forall>g \<in> set (butlast (markers a)). g \<le> last (markers a)"
      by (metis sorted_append, metis sorted_append list.set_intros(1))
    with Pop_marker pos show ?thesis
      by (simp add: markers_pop_marker)
  qed
next
  case Reset
  then show ?thesis
    by (simp add: arena_reset_def)
qed

lemma reach_unshrunk_reach:
  assumes "reach_unshrunk a"
  shows "reach any_call a"
  using assms
proof (induction rule: reach_unshrunk.induct)
  case (unshrunk_create h n a)
  then show ?case
    by (rule reach_create)
next
  case (unshrunk_call a c h m)
  from unshrunk_call.IH show ?case
    by (rule reach_call) (simp_all add: unshrunk_call.hyps)
qed

lemma reach_markers:
  assumes "reach_unshrunk a"
  shows "sorted (markers a) \<and> (\<forall>g \<in> set (markers a). g \<le> get_current_position a)"
  using assms
proof (induction rule: reach_unshrunk.induct)
  case (unshrunk_create h n a)
  then have "markers a = []"
    by (auto simp: arena_create_def Let_def split: if_splits)
  then show ?case by simp
next
  case (unshrunk_call a c h m)
  from unshrunk_call.hyps(1) have "reach any_call a"
    by (rule reach_unshrunk_reach)
  then have "arena_ok a"
    by (rule reach_arena_ok)
  with unshrunk_call show ?case
    by (intro markers_step) simp_all
qed

subsection \<open>A run with shrinking reallocations\<close>

lemma unshrunk_step:
  assumes "reach_unshrunk a" and "\<not> shrinks_below_marker a c" and "call_fits h a c"
    and "fst (run_call h c (a, m)) = a'"
  shows "reach_unshrunk a'"
  using unshrunk_call [OF assms(1-3), of m] assms(4) by simp

lemmas shrink_defs = shrinks_below_marker_def shrinks_tail_def last_in_block_def
  global_offset_def

lemma shrinking_in_place:
  shows "shrinks_tail (marked 0x1020 [16]) (Realloc 0x1010 16 8)"
    and "\<not> shrinks_below_marker (marked 0x1020 [16]) (Realloc 0x1010 16 8)"
    and "call_fits (heap_at 0x100000) (marked 0x1020 [16]) (Realloc 0x1010 16 8)"
    and "fst (run_call (heap_at 0x100000) (Realloc 0x1010 16 8)
           (marked 0x1020 [16], zero_memory)) = marked 0x1018 [16]"
  by (simp_all add: run_defs shrink_defs)

lemma shrinking_copy:
  shows "\<not> shrinks_below_marker (marked 0x1018 [16, 24]) (Realloc 0x1000 16 8)"
    and "call_fits (heap_at 0x100000) (marked 0x1018 [16, 24]) (Realloc 0x1000 16 8)"
    and "fst (run_call (heap_at 0x100000) (Realloc 0x1000 16 8)
           (marked 0x1018 [16, 24], zero_memory)) = marked 0x1020 [16, 24]"
  by (simp_all add: run_defs shrink_defs)

lemma reach_marked:
  "reach_unshrunk (marked 0x1020 [16, 24, 32])"
proof -
  let ?h = "heap_at 0x100000"
  have "arena_create (heap_at 0x1000) 64 = Some (marked 0x1000 [])"
    by (simp add: create64 arena64_def marked_def)
  then have "reach_unshrunk (marked 0x1000 [])"
    by (rule unshrunk_create) (simp add: create_fits_def heap_at_def)
  then have "reach_unshrunk (marked 0x1010 [])"
    by (rule unshrunk_step [where c = "Alloc 16" and h = ?h and m = zero_memory])
      (simp_all add: run_defs shrink_defs)
  then have "reach_unshrunk (marked 0x1010 [16])"
    by (rule unshrunk_step [where c = Push_marker and h = ?h and m = zero_memory])
      (simp_all add: run_defs shrink_defs)
  then have "reach_unshrunk (marked 0x1020 [16])"
    by (rule unshrunk_step [where c = "Alloc 16" and h = ?h and m = zero_memory])
      (simp_all add: run_defs shrink_defs)
  then have "reach_unshrunk (marked 0x1018 [16])"
    using shrinking_in_place(2-4) by (rule unshrunk_step)
  then have "reach_unshrunk (marked 0x1018 [16, 24])"
    by (rule unshrunk_step [where c = Push_marker and h = ?h and m = zero_memory])
      (simp_all add: run_defs shrink_defs)
  then have "reach_unshrunk (marked 0x1020 [16, 24])"
    using shrinking_copy by (rule unshrunk_step)
  then show ?thesis
    by (rule unshrunk_step [where c = Push_marker and h = ?h and m = zero_memory])
      (simp_all add: run_defs shrink_defs)
qed
subsection \<open>The region of an allocation\<close>

lemma alloc_carved:
  assumes "chain_ok a" and "alloc_fits h a n" and "fst (arena_alloc h a n) \<noteq> NULL"
  shows "carved_from_tail a (fst (arena_alloc h a n)) n (snd (arena_alloc h a n))"
proof -
  let ?p = "fst (arena_alloc h a n)" and ?a' = "snd (arena_alloc h a n)"
  let ?t = "last (chain ?a')"
  note s = alloc_success [of h a n, OF assms(3,2)]
  from assms(1) have l: "base (last (chain a)) \<le> bump (last (chain a))"
    by (simp add: chain_ok_def list_all_iff block_ok_def)
  from s(2,4,5) have inside: "unat ?p + unat n \<le> unat (bump ?t)"
    by (simp add: unat_add_lem [THEN iffD1])
  from s(6) show ?thesis
  proof
    assume c: "chain ?a' = butlast (chain a) @ [?t] \<and> span ?t = span (last (chain a)) \<and>
      ?p = bump (last (chain a)) \<and> bump ?t \<le> end_p ?t"
    then have "prefix (butlast (chain a)) (chain ?a')"
      by (metis prefixI)
    moreover from c have "butlast (chain ?a') = butlast (chain a)"
      by (metis butlast_snoc)
    moreover from c l have "base ?t \<le> ?p"
      by (simp add: span_def)
    ultimately show ?thesis
      using c inside by (simp add: carved_from_tail_def Let_def)
  next
    assume c: "chain ?a' = chain a @ [?t] \<and> ?p = base ?t \<and> bump ?t \<le> end_p ?t"
    have "prefix (butlast (chain a)) (chain a @ [?t])"
      by (rule prefix_order.trans [OF prefixeq_butlast]) simp
    with c have "prefix (butlast (chain a)) (chain ?a')"
      by simp
    moreover from c have "butlast (chain ?a') = chain a"
      by (metis butlast_snoc)
    ultimately show ?thesis
      using c inside by (simp add: carved_from_tail_def Let_def)
  qed
qed

lemma calloc_result: "fst (arena_calloc h a m num sz) = fst (arena_alloc h a (num * sz))"
  by (simp add: arena_calloc_def Let_def split: prod.split)

lemma strdup_result:
  "fst (arena_strdup h a m (Some s)) = fst (arena_alloc h a (of_nat (length s) + 1))"
  by (simp add: arena_strdup_def Let_def split: prod.split)

lemma realloc_copy_result:
  assumes "ptr \<noteq> NULL" and "new_size \<noteq> 0"
    and "realloc_walk ptr (align_up old_size ARENA_ALIGNMENT)
           (align_up new_size ARENA_ALIGNMENT) (chain a) = None"
  shows "fst (arena_realloc h a m ptr old_size new_size) =
           fst (arena_alloc h a (align_up new_size ARENA_ALIGNMENT))"
    and "fst (snd (arena_realloc h a m ptr old_size new_size)) =
           snd (arena_alloc h a (align_up new_size ARENA_ALIGNMENT))"
  using assms by (simp_all add: arena_realloc_def chain_def Let_def split: prod.split)

subsection \<open>Resizing in place and the blocks before the last one\<close>

lemma list_all2_same_but_one:
  assumes "P cur cur'" and "\<And>b. P b b"
  shows "list_all2 P (pre @ cur # post) (pre @ cur' # post)"
  using assms by (simp add: list_all2_appendI list_all2_refl)

lemma realloc_in_place_frame:
  fixes a h m ptr old_size new_size
  defines "old \<equiv> align_up old_size ARENA_ALIGNMENT" and "new \<equiv> align_up new_size ARENA_ALIGNMENT"
  assumes "ptr \<noteq> NULL" and "new_size \<noteq> 0"
    and "realloc_walk ptr old new (chain a) \<noteq> None"
    and "unat ptr + unat old < 2 ^ 64"
    and "containing_block ptr (butlast (chain a)) = None \<or> new \<le> old"
  shows "fst (arena_realloc h a m ptr old_size new_size) = ptr"
    and "list_all2 (\<lambda>b b'. span b' = span b \<and> bump b' \<le> bump b) (butlast (chain a))
           (butlast (chain (fst (snd (arena_realloc h a m ptr old_size new_size)))))"
proof -
  let ?P = "\<lambda>b b'. span b' = span b \<and> bump b' \<le> bump b"
  have "fst (arena_realloc h a m ptr old_size new_size) = ptr \<and>
    list_all2 ?P (butlast (chain a))
      (butlast (chain (fst (snd (arena_realloc h a m ptr old_size new_size)))))"
  proof (cases rule: realloc_cases [where h = h and a = a and m = m and p = ptr
        and old_size = old_size and new_size = new_size])
    case free
    with assms(4) show ?thesis by simp
  next
    case fresh
    with assms(3) show ?thesis by simp
  next
    case (in_place r rs)
    from in_place(3) obtain pre cur post where bs: "chain a = pre @ cur # post"
      and bs': "r # rs = pre @ cur\<lparr>bump := ptr + new\<rparr> # post"
      and l: "ptr + old = bump cur"
      and inside: "base cur \<le> ptr" "ptr < end_p cur"
      and pre: "containing_block ptr pre = None"
      unfolding old_def new_def using realloc_walk_split by blast
    have "list_all2 ?P (butlast (pre @ cur # post)) (butlast (pre @ cur\<lparr>bump := ptr + new\<rparr> # post))"
    proof (cases "post = []")
      case True
      then show ?thesis
        by (simp add: list_all2_refl)
    next
      case False
      then have "butlast (chain a) = pre @ cur # butlast post"
        by (simp add: bs butlast_append)
      with pre inside have "containing_block ptr (butlast (chain a)) = Some cur"
        by (simp add: containing_block_append)
      with assms(7) have "new \<le> old"
        by simp
      with assms(6) have "ptr + new \<le> ptr + old"
        by (simp add: word_le_nat_alt unat_add_lem [THEN iffD1])
      with l have "?P cur (cur\<lparr>bump := ptr + new\<rparr>)"
        by simp
      then have "list_all2 ?P (pre @ cur # butlast post) (pre @ cur\<lparr>bump := ptr + new\<rparr> # butlast post)"
        by (rule list_all2_same_but_one) simp
      with False show ?thesis
        by (simp add: butlast_append)
    qed
    then have "list_all2 ?P (butlast (chain a)) (butlast (r # rs))"
      by (simp only: bs bs')
    then show ?thesis
      unfolding in_place(4) by simp
  next
    case copy
    with assms(5) show ?thesis
      by (simp add: old_def new_def)
  qed
  then show "fst (arena_realloc h a m ptr old_size new_size) = ptr"
    and "list_all2 ?P (butlast (chain a))
      (butlast (chain (fst (snd (arena_realloc h a m ptr old_size new_size)))))"
    by simp_all
qed

subsection \<open>A run to a chain of two blocks\<close>

lemma reach_two_blocks: "reach any_call two_blocks"
proof -
  have "reach any_call (marked 0x1000 [])"
    using reach_arena64 [of any_call] by (simp add: arena64_def marked_def)
  then have "reach any_call (marked 0x1020 [])"
    by (rule reach_step [where c = "Alloc 32" and h = "heap_at 0x100000" and m = zero_memory])
      (simp_all add: run_defs)
  then have "reach any_call (marked 0x1020 [32])"
    by (rule reach_step [where c = Push_marker and h = "heap_at 0x100000" and m = zero_memory])
      (simp_all add: run_defs)
  then have "reach any_call
      \<lparr>root = \<lparr>base = 0x1000, bump = 0x1020, end_p = 0x1040\<rparr>,
       rest = [\<lparr>base = 0x200000, bump = 0x200068, end_p = 0x300000\<rparr>],
       markers = [32], marker_cap = 16\<rparr>"
    by (rule reach_step [where c = "Alloc 104" and h = "heap_at 0x200000" and m = zero_memory])
      (simp_all add: run_defs)
  then show ?thesis
    by (rule reach_step [where c = Push_marker and h = "heap_at 0x200000" and m = zero_memory])
      (simp_all add: run_defs two_blocks_def)
qed
subsection \<open>Where the walk of arena_pop_marker stops\<close>

lemma land_spans:
  "map span bs = map span cs \<Longrightarrow>
     land_index g c bs = land_index g c cs \<and> land_offset g c bs = land_offset g c cs"
proof (induction bs arbitrary: cs c)
  case Nil
  then show ?case by simp
next
  case (Cons b bs)
  then obtain d ds where cs: "cs = d # ds" and sp: "span b = span d"
    and rest: "map span bs = map span ds"
    by (cases cs) auto
  from sp have "end_p b - base b = end_p d - base d"
    by (simp add: span_def)
  with Cons.IH [OF rest] cs show ?case
    by (simp add: Let_def)
qed

lemma land_append:
  "land_index g c bs < length bs \<Longrightarrow>
     land_index g c (bs @ es) = land_index g c bs \<and>
     land_offset g c (bs @ es) = land_offset g c bs"
  by (induction bs arbitrary: c) (auto simp: Let_def)

lemma land_prefix:
  assumes "prefix (map span bs) (map span cs)" and "land_index g c bs < length bs"
  shows "land_index g c cs = land_index g c bs \<and> land_offset g c cs = land_offset g c bs"
proof -
  from assms(1) obtain ds es where cs: "cs = ds @ es" and sp: "map span ds = map span bs"
    using prefix_map_split by blast
  from sp have len: "length ds = length bs"
    by (metis length_map)
  from land_spans [OF sp, of g c] assms(2) len have "land_index g c ds < length ds"
    by simp
  from land_append [OF this, of es] land_spans [OF sp, of g c] cs show ?thesis
    by simp
qed

lemma markers_land_prefix:
  assumes "prefix (map span bs) (map span cs)" and "markers_land bs ms"
  shows "markers_land cs ms"
proof -
  from assms(1) have len: "length bs \<le> length cs"
    by (metis prefix_length_le length_map)
  from assms(2) have l: "\<forall>g \<in> set ms. land_index g 0 bs < length bs"
    by (simp add: markers_land_def list_all_iff lands_def)
  then have same: "\<forall>g \<in> set ms. land_index g 0 cs = land_index g 0 bs \<and>
      land_offset g 0 cs = land_offset g 0 bs"
    using land_prefix [OF assms(1)] by blast
  then have m: "map (\<lambda>g. land_index g 0 cs) ms = map (\<lambda>g. land_index g 0 bs) ms"
    by simp
  from assms(2) have "sorted (map (\<lambda>g. land_index g 0 bs) ms)"
    by (simp add: markers_land_def)
  then have "sorted (map (\<lambda>g. land_index g 0 cs) ms)"
    by (simp only: m)
  moreover from assms(2) same len have "\<forall>g \<in> set ms. lands cs g"
    by (fastforce simp: markers_land_def list_all_iff lands_def)
  ultimately show ?thesis
    by (simp add: markers_land_def list_all_iff)
qed

lemma pop_walk_length:
  "land_index g c bs < length bs \<Longrightarrow> length (pop_walk g c bs) = Suc (land_index g c bs)"
  by (induction bs arbitrary: c) (auto simp: Let_def)

lemma pop_walk_land:
  "land_index g c bs \<le> land_index g0 c bs \<Longrightarrow> land_index g0 c bs < length bs \<Longrightarrow>
     land_index g c (pop_walk g0 c bs) = land_index g c bs \<and>
     land_offset g c (pop_walk g0 c bs) = land_offset g c bs"
  by (induction bs arbitrary: c) (auto simp: Let_def split: if_splits)

lemma pop_walk_aligned:
  "list_all aligned_block bs \<Longrightarrow> unat (land_offset g c bs) mod 8 = 0 \<Longrightarrow>
     list_all aligned_block (pop_walk g c bs)"
  by (induction bs arbitrary: c) (auto simp: Let_def aligned_block_def)

lemma pop_walk_started:
  "list_all started bs \<Longrightarrow> \<not> g \<le> c \<Longrightarrow> list_all started (pop_walk g c bs)"
  by (induction bs arbitrary: c) (auto simp: Let_def started_def)


lemma unat_sub_mod8:
  assumes "unat x mod 8 = 0" and "unat y mod 8 = 0"
  shows "unat (x - y :: 64 word) mod 8 = 0"
proof -
  have "unat ((x - y) + y) = (unat (x - y) + unat y) mod 2 ^ 64"
    by (simp only: unat_word_ariths) simp
  then have "unat x = (unat (x - y) + unat y) mod 2 ^ 64"
    by simp
  with assms(1) have "((unat (x - y) + unat y) mod 2 ^ 64) mod 8 = 0"
    by simp
  then have "(unat (x - y) + unat y) mod 8 = 0"
    by (simp add: mod_mod_cancel)
  with assms(2) show ?thesis
    by presburger
qed

lemma unat_position_loop:
  assumes "unat c + sum_list (map (\<lambda>b. unat (capacity b)) (cur # ns)) < 2 ^ 64"
    and "block_ok (last (cur # ns))"
  shows "unat (position_loop c cur ns) =
           unat c + sum_list (map (\<lambda>b. unat (capacity b)) (butlast (cur # ns))) +
           unat (bump (last (cur # ns)) - base (last (cur # ns)))"
  using assms
proof (induction ns arbitrary: c cur)
  case Nil
  from Nil.prems(2) have "unat (bump cur - base cur) \<le> unat (capacity cur)"
    using offset_le_capacity [of cur] by simp
  with Nil.prems(1) show ?case
    by (simp add: unat_add_lem [THEN iffD1])
next
  case (Cons n ns)
  from Cons.prems(1) have c: "unat (c + capacity cur) = unat c + unat (capacity cur)"
    by (simp add: unat_add_lem [THEN iffD1])
  with Cons.prems have "unat (position_loop (c + capacity cur) n ns) =
      unat (c + capacity cur) + sum_list (map (\<lambda>b. unat (capacity b)) (butlast (n # ns))) +
      unat (bump (last (n # ns)) - base (last (n # ns)))"
    by (intro Cons.IH) simp_all
  with c show ?case
    by (simp add: capacity_def)
qed

lemma land_position_loop:
  assumes "unat c + sum_list (map (\<lambda>b. unat (capacity b)) (cur # ns)) < 2 ^ 64"
    and "block_ok (last (cur # ns))" and "list_all started ns"
  shows "land_index (position_loop c cur ns) c (cur # ns) = length ns \<and>
         land_offset (position_loop c cur ns) c (cur # ns) =
           bump (last (cur # ns)) - base (last (cur # ns))"
  using assms
proof (induction ns arbitrary: c cur)
  case Nil
  from Nil.prems(2) have "unat (bump cur - base cur) \<le> unat (capacity cur)"
    using offset_le_capacity [of cur] by simp
  with Nil.prems(1) have "c + (bump cur - base cur) \<le> c + capacity cur"
    by (simp add: word_le_nat_alt unat_add_lem [THEN iffD1])
  then show ?case
    by (simp add: capacity_def)
next
  case (Cons n ns)
  let ?c = "c + capacity cur" and ?l = "last (n # ns)"
  from Cons.prems(1) have c: "unat ?c = unat c + unat (capacity cur)"
    by (simp add: unat_add_lem [THEN iffD1])
  with Cons.prems(1) have fits: "unat ?c + sum_list (map (\<lambda>b. unat (capacity b)) (n # ns)) < 2 ^ 64"
    by simp
  from Cons.prems(2) have ok: "block_ok (last (n # ns))"
    by simp
  from Cons.prems(3) have st: "list_all started ns"
    by simp
  note ih = Cons.IH [OF fits ok st]
  have "?l \<in> set (n # ns)"
    by (rule last_in_set) simp
  with Cons.prems(3) have "started ?l"
    by (simp only: list_all_iff)
  then have "bump ?l - base ?l \<noteq> 0"
    by (simp add: started_def)
  then have "0 < unat (bump ?l - base ?l)"
    by (simp add: unat_gt_0)
  with unat_position_loop [OF fits ok] have "unat ?c < unat (position_loop ?c n ns)"
    by simp
  then have "\<not> position_loop ?c n ns \<le> ?c"
    by (simp add: word_le_nat_alt)
  with ih show ?case
    by (simp add: capacity_def Let_def)
qed

lemma land_position:
  assumes "arena_ok a" and "list_all started (rest a)"
  shows "land_index (get_current_position a) 0 (chain a) = length (rest a)"
    and "land_offset (get_current_position a) 0 (chain a) =
           bump (last (chain a)) - base (last (chain a))"
proof -
  have "last (root a # rest a) \<in> set (root a # rest a)"
    by (rule last_in_set) simp
  with assms(1) have "block_ok (last (root a # rest a))"
    by (simp only: arena_ok_def chain_def chain_ok_def list_all_iff)
  moreover from assms(1) have
    "unat (0 :: size_t) + sum_list (map (\<lambda>b. unat (capacity b)) (root a # rest a)) < 2 ^ 64"
    by (simp add: arena_ok_def total_capacity_def chain_def)
  ultimately have "land_index (position_loop 0 (root a) (rest a)) 0 (root a # rest a) =
      length (rest a) \<and>
    land_offset (position_loop 0 (root a) (rest a)) 0 (root a # rest a) =
      bump (last (root a # rest a)) - base (last (root a # rest a))"
    using assms(2) by (intro land_position_loop)
  then
  show "land_index (get_current_position a) 0 (chain a) = length (rest a)"
    and "land_offset (get_current_position a) 0 (chain a) =
           bump (last (chain a)) - base (last (chain a))"
    by (simp_all add: get_current_position_def chain_def)
qed


lemma rest_set_last_block:
  "rest (set_last_block a b) = (if rest a = [] then [] else butlast (rest a) @ [b])"
  by (simp add: set_last_block_def)

lemma last_chain_rest: "rest a \<noteq> [] \<Longrightarrow> last (chain a) = last (rest a)"
  by (simp add: chain_def)

lemma alloc_aligned:
  assumes "chain_ok a" and "alloc_safe h a n"
    and "list_all aligned_block (chain a)" and "list_all started (rest a)"
  shows "list_all aligned_block (chain (snd (arena_alloc h a n)))"
    and "list_all started (rest (snd (arena_alloc h a n)))"
proof -
  let ?l = "last (chain a)" and ?bytes = "align_up n ARENA_ALIGNMENT"
  from assms(1) have ok: "block_ok ?l"
    by (simp add: chain_ok_def list_all_iff)
  from assms(3) have al: "aligned_block ?l"
    by (simp add: list_all_iff)
  have "list_all aligned_block (chain (snd (arena_alloc h a n))) \<and>
    list_all started (rest (snd (arena_alloc h a n)))"
  proof (cases rule: alloc_cases [where h = h and a = a and n = n])
    case null
    with assms(3,4) show ?thesis
      by simp
  next
    case in_tail
    let ?l' = "?l\<lparr>bump := bump ?l + ?bytes\<rparr>"
    have e: "bump ?l' - base ?l' = (bump ?l - base ?l) + ?bytes"
      by simp
    from al have "unat (bump ?l - base ?l) mod 8 = 0"
      by (simp add: aligned_block_def)
    then have "unat ((bump ?l - base ?l) + ?bytes) mod 8 = 0"
      using align_up_mod8 by (rule unat_add_mod8)
    then have al': "aligned_block ?l'"
      by (simp only: aligned_block_def e)
    with assms(3) have "list_all aligned_block (butlast (chain a) @ [?l'])"
      by (rule list_all_set_last)
    moreover have "list_all started (rest (set_last_block a ?l'))"
    proof (cases "rest a = []")
      case True
      then show ?thesis
        by (simp add: rest_set_last_block)
    next
      case False
      then have l: "?l = last (rest a)"
        by (rule last_chain_rest)
      with False assms(4) have "started ?l"
        by (simp add: list_all_iff)
      with ok have "unat (base ?l) < unat (bump ?l)"
        by (simp add: started_def block_ok_def word_le_nat_alt word_unat_eq_iff)
      moreover from assms(2) in_tail(1) have "unat (bump ?l + ?bytes) = unat (bump ?l) + unat ?bytes"
        by (simp add: alloc_safe_def address_fits_def last_chain unat_add_lem [THEN iffD1])
      ultimately have "unat (base ?l) < unat (bump ?l + ?bytes)"
        by simp
      then have "started ?l'"
        by (auto simp: started_def)
      with assms(4) have "list_all started (butlast (rest a) @ [?l'])"
        by (rule list_all_set_last)
      with False show ?thesis
        by (simp add: rest_set_last_block)
    qed
    ultimately show ?thesis
      unfolding in_tail(3) by (simp add: chain_set_last_block)
  next
    case grown
    let ?nb = "\<lparr>base = buf h, bump = buf h + ?bytes,
      end_p = buf h + new_block_size (capacity ?l) ?bytes\<rparr>"
    have "aligned_block ?nb"
      by (simp add: aligned_block_def align_up_mod8)
    moreover from grown(2) ok have "?bytes \<noteq> 0"
      by (auto simp: block_ok_def)
    then have "started ?nb"
      by (simp add: started_def)
    ultimately show ?thesis
      unfolding grown(4) using assms(3,4) by (simp add: chain_append_rest)
  qed
  then show "list_all aligned_block (chain (snd (arena_alloc h a n)))"
    and "list_all started (rest (snd (arena_alloc h a n)))"
    by simp_all
qed

lemma list_all_tl_update:
  assumes "list_all P (tl (pre @ cur # post))" and "P cur'"
  shows "list_all P (tl (pre @ cur' # post))"
  using assms by (cases pre) simp_all

lemma realloc_aligned:
  assumes "chain_ok a" and "call_fits h a (Realloc p old_size new_size)"
    and "realloc_rounds (Realloc p old_size new_size)"
    and "list_all aligned_block (chain a)" and "list_all started (rest a)"
  shows "list_all aligned_block (chain (fst (snd (arena_realloc h a m p old_size new_size))))"
    and "list_all started (rest (fst (snd (arena_realloc h a m p old_size new_size))))"
proof -
  let ?old = "align_up old_size ARENA_ALIGNMENT" and ?new = "align_up new_size ARENA_ALIGNMENT"
  let ?a' = "fst (snd (arena_realloc h a m p old_size new_size))"
  have "list_all aligned_block (chain ?a') \<and> list_all started (rest ?a')"
  proof (cases rule: realloc_cases [where h = h and a = a and m = m and p = p
        and old_size = old_size and new_size = new_size])
    case free
    with assms(4,5) show ?thesis
      by simp
  next
    case fresh
    with assms(2) have "alloc_safe h a new_size"
      by simp
    from alloc_aligned [OF assms(1) this assms(4,5)] show ?thesis
      unfolding fresh(3) by simp
  next
    case (in_place r rs)
    from in_place(3) obtain pre cur post where bs: "chain a = pre @ cur # post"
      and bs': "r # rs = pre @ cur\<lparr>bump := p + ?new\<rparr> # post" and l: "p + ?old = bump cur"
      and inside: "base cur \<le> p"
      using realloc_walk_split by blast
    let ?cur' = "cur\<lparr>bump := p + ?new\<rparr>"
    from assms(4) bs have "unat (bump cur - base cur) mod 8 = 0"
      by (simp add: aligned_block_def)
    then have "unat ((bump cur - base cur) - ?old) mod 8 = 0"
      using align_up_mod8 by (rule unat_sub_mod8)
    then have "unat ((bump cur - base cur) - ?old + ?new) mod 8 = 0"
      using align_up_mod8 by (rule unat_add_mod8)
    moreover have "bump ?cur' - base ?cur' = (bump cur - base cur) - ?old + ?new"
      by (simp add: l [symmetric])
    ultimately have al': "aligned_block ?cur'"
      by (simp only: aligned_block_def)
    from assms(2,3) in_place(1,2) have "unat p + unat ?new < 2 ^ 64" and "0 < unat ?new"
      by (simp_all add: align_up_nonzero)
    then have "unat p < unat (p + ?new)"
      by (simp add: unat_add_lem [THEN iffD1])
    with inside have st': "started ?cur'"
      by (auto simp: started_def word_le_nat_alt)
    from assms(4) bs al' have "list_all aligned_block (pre @ ?cur' # post)"
      by simp
    then have a1: "list_all aligned_block (r # rs)"
      by (simp only: bs')
    have "rest a = tl (chain a)"
      by (simp add: chain_def)
    with assms(5) have "list_all started (tl (pre @ cur # post))"
      by (simp only: bs)
    then have "list_all started (tl (pre @ ?cur' # post))"
      using st' by (rule list_all_tl_update)
    then have "list_all started (tl (r # rs))"
      by (simp only: bs')
    with a1 show ?thesis
      unfolding in_place(4) by simp
  next
    case copy
    with assms(2) have "alloc_safe h a ?new"
      by simp
    from alloc_aligned [OF assms(1) this assms(4,5)] show ?thesis
      unfolding copy(4) by simp
  qed
  then show "list_all aligned_block (chain ?a')" and "list_all started (rest ?a')"
    by simp_all
qed


lemma push_aligned:
  assumes "arena_ok a" and "aligned_arena a"
  shows "aligned_arena (arena_push_marker h a)"
proof -
  let ?f = "\<lambda>g. land_index g 0 (chain a)" and ?pos = "get_current_position a"
  from assms(2) have st: "list_all started (rest a)" and al: "list_all aligned_block (chain a)"
    and ml: "markers_land (chain a) (markers a)"
    by (simp_all add: aligned_arena_def)
  note lp = land_position [OF assms(1) st]
  have len: "length (chain a) = Suc (length (rest a))"
    by (simp add: chain_def)
  from al have "aligned_block (last (chain a))"
    by (simp add: list_all_iff)
  with lp len have pos: "lands (chain a) ?pos"
    by (simp add: lands_def aligned_block_def)
  from ml have "\<forall>g \<in> set (markers a). ?f g < length (chain a)"
    by (simp add: markers_land_def list_all_iff lands_def)
  with lp(1) len have "\<forall>g \<in> set (markers a). ?f g \<le> ?f ?pos"
    by (simp add: less_Suc_eq_le)
  with ml pos have "markers_land (chain a) (markers a @ [?pos])"
    by (simp add: markers_land_def sorted_append)
  moreover have "markers (arena_push_marker h a) = markers a \<or>
      markers (arena_push_marker h a) = markers a @ [?pos]"
    by (auto simp: arena_push_marker_def Let_def)
  moreover have "rest (arena_push_marker h a) = rest a"
    by (simp add: arena_push_marker_def Let_def)
  ultimately show ?thesis
    using st al ml by (auto simp: aligned_arena_def)
qed

lemma rest_chain: "rest a = tl (chain a)"
  by (simp add: chain_def)

lemma rest_pop_marker:
  assumes "markers a \<noteq> []"
  shows "rest (arena_pop_marker a) = tl (pop_walk (last (markers a)) 0 (chain a))"
  by (simp only: rest_chain [of "arena_pop_marker a"] chain_pop_marker [OF assms])

lemma pop_walk_tl_started:
  assumes "list_all started ns"
  shows "list_all started (tl (pop_walk g 0 (cur # ns)))"
proof (cases "g \<le> 0 + (end_p cur - base cur)")
  case True
  then show ?thesis
    by (simp add: Let_def)
next
  case False
  with assms have "list_all started (pop_walk g (0 + (end_p cur - base cur)) ns)"
    by (intro pop_walk_started)
  with False show ?thesis
    by (simp add: Let_def)
qed

lemma pop_aligned:
  assumes "aligned_arena a"
  shows "aligned_arena (arena_pop_marker a)"
proof (cases "markers a = []")
  case True
  with assms show ?thesis
    by (simp add: chain_pop_marker_empty)
next
  case False
  let ?g = "last (markers a)" and ?f = "\<lambda>g. land_index g 0 (chain a)"
  let ?bs = "pop_walk ?g 0 (chain a)"
  from assms have st: "list_all started (rest a)" and al: "list_all aligned_block (chain a)"
    and ml: "markers_land (chain a) (markers a)"
    by (simp_all add: aligned_arena_def)
  from False have split: "markers a = butlast (markers a) @ [?g]"
    by simp
  from ml False have g: "?f ?g < length (chain a)" "unat (land_offset ?g 0 (chain a)) mod 8 = 0"
    by (simp_all add: markers_land_def list_all_iff lands_def)
  from ml have "sorted (map ?f (butlast (markers a) @ [?g]))"
    by (simp only: markers_land_def split [symmetric])
  then have below: "\<forall>x \<in> set (butlast (markers a)). ?f x \<le> ?f ?g"
    and sorted: "sorted (map ?f (butlast (markers a)))"
    by (simp_all add: sorted_append)
  from ml have lower: "\<forall>x \<in> set (butlast (markers a)). unat (land_offset x 0 (chain a)) mod 8 = 0"
    by (auto simp: markers_land_def list_all_iff lands_def dest: in_set_butlastD)
  from below g(1) have same: "\<forall>x \<in> set (butlast (markers a)).
      land_index x 0 ?bs = ?f x \<and> land_offset x 0 ?bs = land_offset x 0 (chain a)"
    using pop_walk_land [of _ 0 "chain a" ?g] by blast
  then have m: "map (\<lambda>x. land_index x 0 ?bs) (butlast (markers a)) = map ?f (butlast (markers a))"
    by simp
  from sorted have "sorted (map (\<lambda>x. land_index x 0 ?bs) (butlast (markers a)))"
    by (simp only: m)
  moreover from g(1) have "length ?bs = Suc (?f ?g)"
    by (rule pop_walk_length)
  with same below lower have "\<forall>x \<in> set (butlast (markers a)). lands ?bs x"
    by (fastforce simp: lands_def)
  ultimately have "markers_land ?bs (butlast (markers a))"
    by (simp add: markers_land_def list_all_iff)
  moreover from al g(2) have "list_all aligned_block ?bs"
    by (rule pop_walk_aligned)
  moreover from st have "list_all started (tl (pop_walk ?g 0 (root a # rest a)))"
    by (rule pop_walk_tl_started)
  then have "list_all started (rest (arena_pop_marker a))"
    by (simp only: rest_pop_marker [OF False] chain_def)
  ultimately show ?thesis
    by (simp add: aligned_arena_def chain_pop_marker [OF False] markers_pop_marker)
qed

lemma reset_aligned: "aligned_arena (arena_reset a)"
  by (simp add: aligned_arena_def chain_reset aligned_block_def markers_land_def)
    (simp add: arena_reset_def)

lemma allocation_aligned:
  assumes "arena_ok a" and "aligned_arena a" and "realloc_rounds c" and "call_fits h a c"
    and "is_allocation c"
  shows "aligned_arena (fst (run_call h c (a, m)))"
proof -
  let ?a' = "fst (run_call h c (a, m))"
  from assms(1) have ok: "chain_ok a"
    by (simp add: arena_ok_def)
  from assms(2) have st: "list_all started (rest a)" and al: "list_all aligned_block (chain a)"
    and ml: "markers_land (chain a) (markers a)"
    by (simp_all add: aligned_arena_def)
  from allocation_call [OF assms(5), of h a m] have m: "markers ?a' = markers a"
    and "prefix (map span (chain a)) (map span (chain ?a'))"
    by simp_all
  from this(2) ml have "markers_land (chain ?a') (markers a)"
    by (rule markers_land_prefix)
  then have "markers_land (chain ?a') (markers ?a')"
    by (simp only: m)
  moreover have "list_all aligned_block (chain ?a') \<and> list_all started (rest ?a')"
  proof (cases c)
    case (Alloc n)
    with assms(4) have "alloc_safe h a n"
      by simp
    from alloc_aligned [OF ok this al st] Alloc show ?thesis
      by simp
  next
    case (Calloc num sz)
    with assms(4) have "alloc_safe h a (num * sz)"
      by simp
    from alloc_aligned [OF ok this al st] Calloc show ?thesis
      by (simp add: calloc_arena)
  next
    case (Realloc p old_size new_size)
    with assms(3,4) have "call_fits h a (Realloc p old_size new_size)"
      and "realloc_rounds (Realloc p old_size new_size)"
      by simp_all
    from realloc_aligned [OF ok this al st, of m] Realloc show ?thesis
      by simp
  next
    case (Strdup s)
    show ?thesis
    proof (cases s)
      case None
      with Strdup al st show ?thesis
        by (simp add: strdup_none)
    next
      case (Some t)
      with Strdup assms(4) have "alloc_safe h a (of_nat (length t) + 1)"
        by simp
      from alloc_aligned [OF ok this al st] Strdup Some show ?thesis
        by (simp add: strdup_arena)
    qed
  next
    case Push_marker
    with assms(5) show ?thesis by simp
  next
    case Pop_marker
    with assms(5) show ?thesis by simp
  next
    case Reset
    with assms(5) show ?thesis by simp
  qed
  ultimately show ?thesis
    by (simp add: aligned_arena_def)
qed

lemma step_aligned:
  assumes "arena_ok a" and "aligned_arena a" and "realloc_rounds c" and "call_fits h a c"
  shows "aligned_arena (fst (run_call h c (a, m)))"
proof (cases "is_allocation c")
  case True
  with assms show ?thesis
    by (rule allocation_aligned)
next
  case False
  then consider "c = Push_marker" | "c = Pop_marker" | "c = Reset"
    by (cases c) simp_all
  then show ?thesis
  proof cases
    case 1
    with assms(1,2) show ?thesis
      by (simp add: push_aligned)
  next
    case 2
    with assms(2) show ?thesis
      by (simp add: pop_aligned)
  next
    case 3
    then show ?thesis
      by (simp add: reset_aligned)
  qed
qed

lemma create_aligned:
  assumes "arena_create h n = Some a"
  shows "aligned_arena a"
  using assms
  by (auto simp: arena_create_def Let_def aligned_arena_def chain_def aligned_block_def
      markers_land_def split: if_splits)

lemma reach_aligned:
  assumes "reach realloc_rounds a"
  shows "aligned_arena a"
  using assms
proof (induction rule: reach.induct)
  case (reach_create h n a)
  then show ?case
    by (simp add: create_aligned)
next
  case (reach_call a c h m)
  from reach_call.hyps(1) have "arena_ok a"
    by (rule reach_arena_ok)
  then show ?case
    using reach_call.IH reach_call.hyps(2,3) by (rule step_aligned)
qed

lemma alloc_offset:
  assumes "chain_ok a" and "list_all aligned_block (chain a)"
    and "fst (arena_alloc h a n) \<noteq> NULL"
  shows "base (last (chain (snd (arena_alloc h a n)))) \<le> fst (arena_alloc h a n)"
    and "unat (fst (arena_alloc h a n) - base (last (chain (snd (arena_alloc h a n))))) mod 8 = 0"
proof -
  let ?l = "last (chain a)"
  from assms(1) have ok: "base ?l \<le> bump ?l"
    by (simp add: chain_ok_def list_all_iff block_ok_def)
  from assms(2) have al: "unat (bump ?l - base ?l) mod 8 = 0"
    by (simp add: list_all_iff aligned_block_def)
  have "base (last (chain (snd (arena_alloc h a n)))) \<le> fst (arena_alloc h a n) \<and>
    unat (fst (arena_alloc h a n) - base (last (chain (snd (arena_alloc h a n))))) mod 8 = 0"
  proof (cases rule: alloc_cases [where h = h and a = a and n = n])
    case null
    with assms(3) show ?thesis
      by simp
  next
    case in_tail
    with ok al show ?thesis
      by simp
  next
    case grown
    then show ?thesis
      by (simp add: chain_append_rest)
  qed
  then show "base (last (chain (snd (arena_alloc h a n)))) \<le> fst (arena_alloc h a n)"
    and "unat (fst (arena_alloc h a n) - base (last (chain (snd (arena_alloc h a n))))) mod 8 = 0"
    by simp_all
qed

subsection \<open>A run with a rewind\<close>

lemma reach_rewound: "reach realloc_rounds (marked 0x1010 [])"
proof -
  let ?h = "heap_at 0x100000"
  have "reach realloc_rounds (marked 0x1000 [])"
    by (rule reach_marked64)
  then have "reach realloc_rounds (marked 0x1010 [])"
    by (rule reach_step [where c = "Alloc 13" and h = ?h and m = zero_memory])
      (simp_all add: run_defs)
  then have "reach realloc_rounds (marked 0x1010 [16])"
    by (rule reach_step [where c = Push_marker and h = ?h and m = zero_memory])
      (simp_all add: run_defs)
  then have "reach realloc_rounds (marked 0x1018 [16])"
    by (rule reach_step [where c = "Alloc 5" and h = ?h and m = zero_memory])
      (simp_all add: run_defs)
  then show ?thesis
    by (rule reach_step [where c = Pop_marker and h = ?h and m = zero_memory])
      (simp_all add: run_defs)
qed

section \<open>Growth of the chain\<close>

text \<open>
  C3, amended. When \<^verbatim>\<open>arena_alloc\<close> of \<open>n > 0\<close> bytes finds that the last block
  cannot hold the rounded request, and the C library provides the new block, the block
  it appends has the capacity max(2 * capacity of the previous last block, computed in
  \<^verbatim>\<open>size_t\<close>, \<^verbatim>\<open>ARENA_DEFAULT_SIZE\<close>, rounded request). For a last block with
  \<^verbatim>\<open>base <= bump <= end\<close> and a request whose rounding and address arithmetic do not
  wrap around, a request larger than double the capacity of the last block appends a
  block of at least the requested size.
\<close>

theorem growth_sizing:
  fixes h :: heap_reply and a :: arena and n :: size_t
  defines "l \<equiv> get_last_block (root a) (rest a)"
    and "bytes \<equiv> align_up n ARENA_ALIGNMENT"
  defines "nb \<equiv> \<lparr>base = buf h, bump = buf h + bytes,
                   end_p = buf h + new_block_size (capacity l) bytes\<rparr>"
  assumes "n \<noteq> 0" and "node_ok h" and "buf h \<noteq> NULL"
  shows "(end_p l < bump l + bytes \<longrightarrow>
            arena_alloc h a n = (buf h, a\<lparr>rest := rest a @ [nb]\<rparr>) \<and>
            unat (capacity nb) =
              max (max ((2 * unat (capacity l)) mod 2 ^ 64) (unat ARENA_DEFAULT_SIZE))
                (unat bytes)) \<and>
         (block_ok l \<and> request_fits a n \<and> 2 * unat (capacity l) < unat n \<longrightarrow>
            arena_alloc h a n = (buf h, a\<lparr>rest := rest a @ [nb]\<rparr>) \<and>
            unat n \<le> unat (capacity nb))"
proof -
  have cap_nb: "capacity nb = new_block_size (capacity l) bytes"
    by (simp add: nb_def capacity_def)
  have grow: "arena_alloc h a n = (buf h, a\<lparr>rest := rest a @ [nb]\<rparr>)"
    if "end_p l < bump l + bytes"
    using that assms(4-6) alloc_grow [of n a h]
    by (simp add: l_def bytes_def nb_def last_chain)
  have first: "end_p l < bump l + bytes \<longrightarrow>
      arena_alloc h a n = (buf h, a\<lparr>rest := rest a @ [nb]\<rparr>) \<and>
      unat (capacity nb) =
        max (max ((2 * unat (capacity l)) mod 2 ^ 64) (unat ARENA_DEFAULT_SIZE)) (unat bytes)"
    using grow by (simp add: cap_nb unat_new_block_size)
  have second: "arena_alloc h a n = (buf h, a\<lparr>rest := rest a @ [nb]\<rparr>) \<and>
      unat n \<le> unat (capacity nb)"
    if ok: "block_ok l" and fits: "request_fits a n" and big: "2 * unat (capacity l) < unat n"
  proof -
    from fits have f1: "unat n + 7 < 2 ^ 64" and f2: "unat (bump l) + unat bytes < 2 ^ 64"
      by (simp_all add: request_fits_def address_fits_def l_def bytes_def)
    have n_le: "unat n \<le> unat bytes"
      using f1 by (simp add: bytes_def align_up_ge)
    from ok have "base l \<le> bump l" and "bump l \<le> end_p l"
      by (simp_all add: block_ok_def)
    then have "unat (end_p l) - unat (bump l) \<le> unat (capacity l)"
      by (simp add: unat_capacity word_le_nat_alt)
    with big n_le \<open>bump l \<le> end_p l\<close> have "unat (end_p l) < unat (bump l) + unat bytes"
      by (simp add: word_le_nat_alt)
    with f2 have "end_p l < bump l + bytes"
      by (simp add: tail_test_nat)
    moreover have "unat n \<le> unat (capacity nb)"
      using n_le new_block_size_ge [of bytes "capacity l"] by (simp add: cap_nb)
    ultimately show ?thesis
      using grow by simp
  qed
  from first second show ?thesis
    by blast
qed

theorem growth_sizing_witness:
  "(200 :: size_t) \<noteq> 0 \<and> node_ok (heap_at 0x100000) \<and> buf (heap_at 0x100000) \<noteq> NULL \<and>
   end_p (root arena64) < bump (root arena64) + align_up 200 ARENA_ALIGNMENT \<and>
   block_ok (root arena64) \<and> request_fits arena64 200 \<and>
   2 * unat (capacity (root arena64)) < unat (200 :: size_t) \<and>
   arena_alloc (heap_at 0x100000) arena64 200 =
     (0x100000, arena64\<lparr>rest := [\<lparr>base = 0x100000, bump = 0x1000C8, end_p = 0x200000\<rparr>]\<rparr>) \<and>
   unat (capacity \<lparr>base = 0x100000, bump = 0x1000C8, end_p = 0x200000\<rparr>) = 1048576"
  using growth_sizing [of 200 "heap_at 0x100000" arena64]
  by (simp add: heap_at_def arena64_def align_up_def ARENA_ALIGNMENT_def block_ok_def
      request_fits_def address_fits_def capacity_def new_block_size_def ARENA_DEFAULT_SIZE_def)

text \<open>
  C3 as stated fails: a request of \<open>2 ^ 64 - 1\<close> bytes is rounded to 0 bytes, the last
  block can hold that, and no block is appended.
\<close>

theorem growth_floor_counterexample:
  "2 * unat (capacity (get_last_block (root arena64) (rest arena64)))
     < unat (0xFFFFFFFFFFFFFFFF :: size_t) \<and>
   arena_alloc (heap_at 0x100000) arena64 0xFFFFFFFFFFFFFFFF = (0x1000, arena64) \<and>
   rest arena64 = []"
  by (simp add: heap_at_def arena64_def align_up_def ARENA_ALIGNMENT_def capacity_def
      arena_alloc_def set_last_block_def)

section \<open>Popping a marker that is stale\<close>

text \<open>
  C8. \<^verbatim>\<open>arena_pop_marker\<close> is defined for every recorded offset: in a chain whose
  blocks have \<^verbatim>\<open>base <= end\<close>, every block of the chain it leaves is a block that was
  there, unchanged, or has its bump inside \<^verbatim>\<open>[base, end]\<close>; so a chain with all bumps
  in range stays one. When the popped offset is larger than the capacity of the whole
  chain, the chain stays as it is (every base, bump and end, and the blocks themselves)
  and only the marker entry goes.
\<close>

theorem pop_marker_tolerant:
  "(list_all (\<lambda>b. base b \<le> end_p b) (chain a) \<longrightarrow>
      list_all (\<lambda>b. b \<in> set (chain a) \<or> block_ok b) (chain (arena_pop_marker a))) \<and>
   (chain_ok a \<longrightarrow> chain_ok (arena_pop_marker a)) \<and>
   (markers a \<noteq> [] \<and> total_capacity a < unat (last (markers a)) \<longrightarrow>
      arena_pop_marker a = a\<lparr>markers := butlast (markers a)\<rparr>)"
proof (intro conjI impI)
  assume "list_all (\<lambda>b. base b \<le> end_p b) (chain a)"
  then show "list_all (\<lambda>b. b \<in> set (chain a) \<or> block_ok b) (chain (arena_pop_marker a))"
    using pop_walk_set [of 0 "last (markers a)" "chain a"]
    by (cases "markers a = []") (simp_all add: chain_pop_marker chain_pop_marker_empty list_all_iff)
next
  assume "chain_ok a"
  then show "chain_ok (arena_pop_marker a)"
    using pop_walk_ok [of 0 "last (markers a)" "chain a"]
    by (cases "markers a = []") (simp_all add: chain_pop_marker chain_pop_marker_empty chain_ok_def)
next
  assume stale: "markers a \<noteq> [] \<and> total_capacity a < unat (last (markers a))"
  then have "pop_walk (last (markers a)) 0 (chain a) = chain a"
    by (intro pop_walk_beyond) (simp add: total_capacity_def)
  with stale show "arena_pop_marker a = a\<lparr>markers := butlast (markers a)\<rparr>"
    by (simp add: arena_pop_marker_def chain_def Let_def del: pop_walk.simps)
qed

theorem pop_marker_tolerant_witness:
  "list_all (\<lambda>b. base b \<le> end_p b) (chain stale_arena) \<and> chain_ok stale_arena \<and>
   markers stale_arena \<noteq> [] \<and> total_capacity stale_arena < unat (last (markers stale_arena)) \<and>
   list_all (\<lambda>b. b \<in> set (chain stale_arena) \<or> block_ok b) (chain (arena_pop_marker stale_arena)) \<and>
   chain_ok (arena_pop_marker stale_arena) \<and>
   arena_pop_marker stale_arena = stale_arena\<lparr>markers := [8]\<rparr>"
  using pop_marker_tolerant [of stale_arena]
  by (simp add: stale_arena_def chain_def chain_ok_def block_ok_def total_capacity_def capacity_def)

section \<open>The bump of every block stays inside the block\<close>

text \<open>
  C7, amended. In every arena state that \<^verbatim>\<open>arena_create\<close> and the public operations
  lead to, every block of the chain has \<^verbatim>\<open>base <= bump <= end\<close>, and every public
  operation keeps it so (the retraction of \<^verbatim>\<open>arena_pop_marker\<close> and both in-place
  paths of \<^verbatim>\<open>arena_realloc\<close> among them), as long as no call's address arithmetic
  wraps around (\<open>call_fits\<close>, \<open>create_fits\<close>).
\<close>

theorem block_bump_invariant:
  "(reach any_call a \<longrightarrow> chain_ok a) \<and>
   (chain_ok a \<and> call_fits h a c \<longrightarrow> chain_ok (fst (run_call h c (a, m))))"
  using reach_arena_ok [of any_call a] step_chain_ok [of a h c m]
  by (simp add: arena_ok_def)

theorem block_bump_invariant_witness:
  "reach any_call arena64 \<and> chain_ok arena64 \<and>
   call_fits (heap_at 0x100000) arena64 (Alloc 200) \<and>
   chain_ok (fst (run_call (heap_at 0x100000) (Alloc 200) (arena64, \<lambda>x. 0)))"
proof -
  have fits: "call_fits (heap_at 0x100000) arena64 (Alloc 200)"
    by (simp add: alloc_safe_def address_fits_def reply_fits_def heap_at_def arena64_def
        align_up_def ARENA_ALIGNMENT_def new_block_size_def ARENA_DEFAULT_SIZE_def
        capacity_def total_capacity_def chain_def)
  show ?thesis
    using block_bump_invariant [of arena64 "heap_at 0x100000" "Alloc 200" "\<lambda>x. 0"]
      reach_arena64 [of any_call] fits
    by simp
qed

text \<open>
  C7 as stated fails: for a request of \<open>2 ^ 64 - 8\<close> bytes the sum
  \<^verbatim>\<open>last->bump + bytes\<close> wraps around to \<^verbatim>\<open>bump - 8\<close>, the test for room passes,
  and the bump of the root ends up below its base.
\<close>

theorem block_bump_counterexample:
  "arena_create (heap_at 0x1000) 64 = Some arena64 \<and>
   arena_alloc (heap_at 0x100000) arena64 0xFFFFFFFFFFFFFFF8 =
     (0x1000, arena64\<lparr>root := \<lparr>base = 0x1000, bump = 0xFF8, end_p = 0x1040\<rparr>\<rparr>) \<and>
   \<not> block_ok \<lparr>base = 0x1000, bump = 0xFF8, end_p = 0x1040\<rparr>"
  by (simp add: create64)
    (simp add: heap_at_def arena64_def align_up_def ARENA_ALIGNMENT_def
      arena_alloc_def set_last_block_def block_ok_def)

section \<open>Successive allocations in one block\<close>

text \<open>
  C5, amended. For every arena: take two consecutive successful calls of
  \<^verbatim>\<open>arena_alloc\<close> of which the second appends no block (both results lie in the last
  block), with sizes whose rounding and address arithmetic do not wrap around
  (\<open>alloc_fits\<close>). Then the second address is strictly greater than the first, and the
  second region starts exactly where the first region \<^verbatim>\<open>[p1, p1 + align_up(n1))\<close>
  ends and ends inside the block. And in every arena state that \<^verbatim>\<open>arena_create\<close>
  and public operations lead to, when no address arithmetic wraps around and no
  \<^verbatim>\<open>arena_realloc\<close> of a region has its new size rounded to 0 (\<open>realloc_rounds\<close>),
  every address that \<^verbatim>\<open>arena_alloc\<close> returns lies at or above the base of the last
  block of the chain it leaves, a multiple of 8 away from it.
\<close>

theorem bump_monotonicity:
  fixes a h1 h2 n1 n2
  defines "p1 \<equiv> fst (arena_alloc h1 a n1)" and "a1 \<equiv> snd (arena_alloc h1 a n1)"
  defines "p2 \<equiv> fst (arena_alloc h2 a1 n2)" and "a2 \<equiv> snd (arena_alloc h2 a1 n2)"
  shows "(p1 \<noteq> NULL \<and> p2 \<noteq> NULL \<and> length (chain a2) = length (chain a1) \<and>
          alloc_fits h1 a n1 \<and> alloc_fits h2 a1 n2 \<longrightarrow>
            p1 < p2 \<and>
            unat p1 + unat (align_up n1 ARENA_ALIGNMENT) = unat p2 \<and>
            unat p2 + unat (align_up n2 ARENA_ALIGNMENT) \<le> unat (end_p (last (chain a2))) \<and>
            span (last (chain a2)) = span (last (chain a1))) \<and>
         (reach realloc_rounds a \<and> p1 \<noteq> NULL \<longrightarrow>
            base (last (chain a1)) \<le> p1 \<and> unat (p1 - base (last (chain a1))) mod 8 = 0)"
proof (intro conjI impI)
  assume h: "p1 \<noteq> NULL \<and> p2 \<noteq> NULL \<and> length (chain a2) = length (chain a1) \<and>
    alloc_fits h1 a n1 \<and> alloc_fits h2 a1 n2"
  let ?b1 = "align_up n1 ARENA_ALIGNMENT" and ?b2 = "align_up n2 ARENA_ALIGNMENT"
  let ?t1 = "last (chain a1)" and ?t2 = "last (chain a2)"
  from h have nn1: "p1 \<noteq> NULL" and f1: "alloc_fits h1 a n1"
    and nn2: "p2 \<noteq> NULL" and f2: "alloc_fits h2 a1 n2"
    and len: "length (chain a2) = length (chain a1)"
    by simp_all
  note first = alloc_success [of h1 a n1, folded p1_def a1_def, OF nn1 f1]
  note second = alloc_success [of h2 a1 n2, folded p2_def a2_def, OF nn2 f2]
  have "chain a2 \<noteq> chain a1 @ [?t2]"
  proof
    assume "chain a2 = chain a1 @ [?t2]"
    then have "length (chain a2) = Suc (length (chain a1))"
      by (metis length_append_singleton)
    with len show False
      by simp
  qed
  with second(6) have same: "span ?t2 = span ?t1" and p2: "p2 = bump ?t1"
    and in2: "bump ?t2 \<le> end_p ?t2"
    by blast+
  from p2 first(4) have p2': "p2 = p1 + ?b1"
    by simp
  with first(5) show u: "unat p1 + unat ?b1 = unat p2"
    by (simp add: unat_add_lem [THEN iffD1])
  with first(3) show "p1 < p2"
    by (simp add: word_less_nat_alt)
  from second(4,5) in2 show "unat p2 + unat ?b2 \<le> unat (end_p ?t2)"
    by (simp add: word_le_nat_alt unat_add_lem [THEN iffD1])
  from same show "span ?t2 = span ?t1" .
next
  assume r: "reach realloc_rounds a \<and> p1 \<noteq> NULL"
  then have rr: "reach realloc_rounds a"
    by simp
  then have "arena_ok a"
    by (rule reach_arena_ok)
  moreover from rr have "aligned_arena a"
    by (rule reach_aligned)
  ultimately have "chain_ok a" and "list_all aligned_block (chain a)"
    by (simp_all add: arena_ok_def aligned_arena_def)
  moreover from r have "fst (arena_alloc h1 a n1) \<noteq> NULL"
    by (simp add: p1_def)
  ultimately have "base (last (chain (snd (arena_alloc h1 a n1)))) \<le> fst (arena_alloc h1 a n1)"
    and "unat (fst (arena_alloc h1 a n1) - base (last (chain (snd (arena_alloc h1 a n1))))) mod 8 = 0"
    by (rule alloc_offset)+
  then show "base (last (chain a1)) \<le> p1" and "unat (p1 - base (last (chain a1))) mod 8 = 0"
    by (simp_all add: p1_def a1_def)
qed

text \<open>
  The run \<^verbatim>\<open>create(64); alloc(13); push; alloc(5); pop\<close> leads to the 64-byte arena
  with its bump 16 bytes above its base. There \<^verbatim>\<open>alloc(13)\<close> returns \<open>0x1010\<close> and
  \<^verbatim>\<open>alloc(5)\<close> returns \<open>0x1020\<close>.
\<close>

theorem bump_monotonicity_witness:
  "reach realloc_rounds (marked 0x1010 []) \<and>
   arena_alloc (heap_at 0x100000) (marked 0x1010 []) 13 = (0x1010, marked 0x1020 []) \<and>
   arena_alloc (heap_at 0x100000) (marked 0x1020 []) 5 = (0x1020, marked 0x1028 []) \<and>
   alloc_fits (heap_at 0x100000) (marked 0x1010 []) 13 \<and>
   alloc_fits (heap_at 0x100000) (marked 0x1020 []) 5 \<and>
   length (chain (marked 0x1028 [])) = length (chain (marked 0x1020 [])) \<and>
   (0x1010 :: addr) < 0x1020 \<and>
   unat (0x1010 :: addr) + unat (align_up 13 ARENA_ALIGNMENT) = unat (0x1020 :: addr) \<and>
   unat (0x1020 :: addr) + unat (align_up 5 ARENA_ALIGNMENT)
     \<le> unat (end_p (last (chain (marked 0x1028 [])))) \<and>
   base (last (chain (marked 0x1020 []))) \<le> 0x1010 \<and>
   unat (0x1010 - base (last (chain (marked 0x1020 [])))) mod 8 = 0"
proof -
  have r: "reach realloc_rounds (marked 0x1010 [])"
    by (rule reach_rewound)
  have a1: "arena_alloc (heap_at 0x100000) (marked 0x1010 []) 13 = (0x1010, marked 0x1020 [])"
    and a2: "arena_alloc (heap_at 0x100000) (marked 0x1020 []) 5 = (0x1020, marked 0x1028 [])"
    by (simp_all add: run_defs)
  have f1: "alloc_fits (heap_at 0x100000) (marked 0x1010 []) 13"
    and f2: "alloc_fits (heap_at 0x100000) (marked 0x1020 []) 5"
    by (simp_all add: alloc_fits_def request_fits_def run_defs)
  have len: "length (chain (marked 0x1028 [])) = length (chain (marked 0x1020 []))"
    by (simp add: chain_def marked_def)
  show ?thesis
    using bump_monotonicity [where a = "marked 0x1010 []" and ?h1.0 = "heap_at 0x100000"
        and ?n1.0 = 13 and ?h2.0 = "heap_at 0x100000" and ?n2.0 = 5] r f1 f2
    by (simp add: a1 a2 len)
qed

text \<open>
  C5 as stated fails. A request of \<open>2 ^ 64 - 1\<close> bytes is rounded to 0 bytes and
  succeeds without moving the bump, so the next call returns the same address. And
  rounding to 0 breaks the alignment as well, when the capacity of a block is not a
  multiple of 8: after \<^verbatim>\<open>create(100); alloc(200)\<close> the chain has a second block
  with one region; \<^verbatim>\<open>realloc(p, 200, 2 ^ 64 - 1)\<close> resizes it in place to 0 bytes, a
  push then stores the position 100, the pop leads back to the root with its bump at
  offset 100, and there \<^verbatim>\<open>alloc(2 ^ 64 - 1)\<close> returns \<open>0x1064\<close>, 100 bytes above the
  base.
\<close>

theorem bump_monotonicity_counterexample:
  "arena_alloc (heap_at 0x100000) arena64 0xFFFFFFFFFFFFFFFF = (0x1000, arena64) \<and>
   arena_alloc (heap_at 0x100000) arena64 8 =
     (0x1000, arena64\<lparr>root := \<lparr>base = 0x1000, bump = 0x1008, end_p = 0x1040\<rparr>\<rparr>) \<and>
   \<not> (0x1000 :: addr) < 0x1000 \<and>
   arena_create (heap_at 0x1000) 100 = Some (arena100 0x1000 [] []) \<and>
   arena_alloc (heap_at 0x200000) (arena100 0x1000 [] []) 200 =
     (0x200000,
      arena100 0x1000 [\<lparr>base = 0x200000, bump = 0x2000C8, end_p = 0x300000\<rparr>] []) \<and>
   arena_realloc (heap_at 0x400000)
       (arena100 0x1000 [\<lparr>base = 0x200000, bump = 0x2000C8, end_p = 0x300000\<rparr>] [])
       zero_memory 0x200000 200 0xFFFFFFFFFFFFFFFF =
     (0x200000,
      arena100 0x1000 [\<lparr>base = 0x200000, bump = 0x200000, end_p = 0x300000\<rparr>] [],
      zero_memory) \<and>
   arena_push_marker (heap_at 0x400000)
       (arena100 0x1000 [\<lparr>base = 0x200000, bump = 0x200000, end_p = 0x300000\<rparr>] []) =
     arena100 0x1000 [\<lparr>base = 0x200000, bump = 0x200000, end_p = 0x300000\<rparr>] [100] \<and>
   arena_pop_marker
       (arena100 0x1000 [\<lparr>base = 0x200000, bump = 0x200000, end_p = 0x300000\<rparr>] [100]) =
     arena100 0x1064 [] [] \<and>
   arena_alloc (heap_at 0x400000) (arena100 0x1064 [] []) 0xFFFFFFFFFFFFFFFF =
     (0x1064, arena100 0x1064 [] []) \<and>
   last (chain (arena100 0x1064 [] [])) = \<lparr>base = 0x1000, bump = 0x1064, end_p = 0x1064\<rparr> \<and>
   unat (0x1064 - 0x1000 :: addr) mod 8 = 4"
proof -
  have "arena_alloc (heap_at 0x100000) arena64 0xFFFFFFFFFFFFFFFF = (0x1000, arena64)"
    and "arena_alloc (heap_at 0x100000) arena64 8 =
      (0x1000, arena64\<lparr>root := \<lparr>base = 0x1000, bump = 0x1008, end_p = 0x1040\<rparr>\<rparr>)"
    by (simp_all add: heap_at_def arena64_def align_up_def ARENA_ALIGNMENT_def
        arena_alloc_def set_last_block_def)
  moreover have "arena_create (heap_at 0x1000) 100 = Some (arena100 0x1000 [] [])"
    by (simp add: arena_create_def heap_at_def arena100_def ARENA_INITIAL_MARKER_CAP_def)
  moreover have "arena_alloc (heap_at 0x200000) (arena100 0x1000 [] []) 200 =
     (0x200000,
      arena100 0x1000 [\<lparr>base = 0x200000, bump = 0x2000C8, end_p = 0x300000\<rparr>] [])"
    by (simp add: arena100_def run_defs)
  moreover have "arena_realloc (heap_at 0x400000)
       (arena100 0x1000 [\<lparr>base = 0x200000, bump = 0x2000C8, end_p = 0x300000\<rparr>] [])
       zero_memory 0x200000 200 0xFFFFFFFFFFFFFFFF =
     (0x200000,
      arena100 0x1000 [\<lparr>base = 0x200000, bump = 0x200000, end_p = 0x300000\<rparr>] [],
      zero_memory)"
    by (simp add: arena100_def run_defs)
  moreover have "arena_push_marker (heap_at 0x400000)
       (arena100 0x1000 [\<lparr>base = 0x200000, bump = 0x200000, end_p = 0x300000\<rparr>] []) =
     arena100 0x1000 [\<lparr>base = 0x200000, bump = 0x200000, end_p = 0x300000\<rparr>] [100]"
    by (simp add: arena100_def run_defs)
  moreover have "arena_pop_marker
       (arena100 0x1000 [\<lparr>base = 0x200000, bump = 0x200000, end_p = 0x300000\<rparr>] [100]) =
     arena100 0x1064 [] []"
    by (simp add: arena100_def run_defs)
  moreover have "arena_alloc (heap_at 0x400000) (arena100 0x1064 [] []) 0xFFFFFFFFFFFFFFFF =
     (0x1064, arena100 0x1064 [] [])"
    by (simp add: arena100_def run_defs)
  moreover have "last (chain (arena100 0x1064 [] [])) =
      \<lparr>base = 0x1000, bump = 0x1064, end_p = 0x1064\<rparr>"
    by (simp add: arena100_def chain_def)
  ultimately show ?thesis
    by simp
qed
section \<open>Allocation from the last block only\<close>

text \<open>
  C10, amended. In an arena whose blocks all have their bump in range
  (\<open>chain_ok\<close>: \<^verbatim>\<open>base <= bump <= end\<close>, as in every state reached without wrap-around),
  a successful \<^verbatim>\<open>arena_alloc\<close>, \<^verbatim>\<open>arena_calloc\<close> or \<^verbatim>\<open>arena_strdup\<close>, and a
  successful \<^verbatim>\<open>arena_realloc\<close> that does not resize in place (the copy path), whose
  size and address arithmetic do not wrap around (\<open>alloc_fits\<close>), leaves every block
  before the last one as it was, and the region it returns lies inside one block, the
  last block of the chain it leaves: that is the block that was last (same base and
  end), or a block appended behind it (\<open>carved_from_tail\<close>). So none of these calls
  uses the free space of a block that is not the last one. Neither does an
  \<^verbatim>\<open>arena_realloc\<close> that resizes in place, when the block that contains the pointer
  is the last one or the region does not grow: every block before the last one keeps
  its base and end, and its bump does not rise. What is left is the
  \<^verbatim>\<open>arena_realloc\<close> that grows a region in place in a block that is not the last
  one.
\<close>

theorem tail_only_allocation:
  "(chain_ok a \<and> alloc_fits h a n \<and> fst (arena_alloc h a n) \<noteq> NULL \<longrightarrow>
      carved_from_tail a (fst (arena_alloc h a n)) n (snd (arena_alloc h a n))) \<and>
   (chain_ok a \<and> alloc_fits h a (num * sz) \<and> fst (arena_calloc h a m num sz) \<noteq> NULL \<longrightarrow>
      carved_from_tail a (fst (arena_calloc h a m num sz)) (num * sz)
        (fst (snd (arena_calloc h a m num sz)))) \<and>
   (chain_ok a \<and> alloc_fits h a (of_nat (length s) + 1) \<and>
    fst (arena_strdup h a m (Some s)) \<noteq> NULL \<longrightarrow>
      carved_from_tail a (fst (arena_strdup h a m (Some s))) (of_nat (length s) + 1)
        (fst (snd (arena_strdup h a m (Some s))))) \<and>
   (chain_ok a \<and> ptr \<noteq> NULL \<and> new_size \<noteq> 0 \<and>
    realloc_walk ptr (align_up old_size ARENA_ALIGNMENT)
      (align_up new_size ARENA_ALIGNMENT) (chain a) = None \<and>
    alloc_fits h a (align_up new_size ARENA_ALIGNMENT) \<and>
    fst (arena_realloc h a m ptr old_size new_size) \<noteq> NULL \<longrightarrow>
      carved_from_tail a (fst (arena_realloc h a m ptr old_size new_size))
        (align_up new_size ARENA_ALIGNMENT)
        (fst (snd (arena_realloc h a m ptr old_size new_size)))) \<and>
   (ptr \<noteq> NULL \<and> new_size \<noteq> 0 \<and>
    realloc_walk ptr (align_up old_size ARENA_ALIGNMENT)
      (align_up new_size ARENA_ALIGNMENT) (chain a) \<noteq> None \<and>
    unat ptr + unat (align_up old_size ARENA_ALIGNMENT) < 2 ^ 64 \<and>
    (containing_block ptr (butlast (chain a)) = None \<or>
     align_up new_size ARENA_ALIGNMENT \<le> align_up old_size ARENA_ALIGNMENT) \<longrightarrow>
      fst (arena_realloc h a m ptr old_size new_size) = ptr \<and>
      list_all2 (\<lambda>b b'. span b' = span b \<and> bump b' \<le> bump b) (butlast (chain a))
        (butlast (chain (fst (snd (arena_realloc h a m ptr old_size new_size))))))"
proof (intro conjI impI)
  assume "chain_ok a \<and> alloc_fits h a n \<and> fst (arena_alloc h a n) \<noteq> NULL"
  then show "carved_from_tail a (fst (arena_alloc h a n)) n (snd (arena_alloc h a n))"
    by (simp add: alloc_carved)
next
  assume "chain_ok a \<and> alloc_fits h a (num * sz) \<and> fst (arena_calloc h a m num sz) \<noteq> NULL"
  then show "carved_from_tail a (fst (arena_calloc h a m num sz)) (num * sz)
      (fst (snd (arena_calloc h a m num sz)))"
    by (simp add: calloc_result calloc_arena alloc_carved)
next
  assume "chain_ok a \<and> alloc_fits h a (of_nat (length s) + 1) \<and>
    fst (arena_strdup h a m (Some s)) \<noteq> NULL"
  then show "carved_from_tail a (fst (arena_strdup h a m (Some s))) (of_nat (length s) + 1)
      (fst (snd (arena_strdup h a m (Some s))))"
    by (simp add: strdup_result strdup_arena alloc_carved)
next
  assume c: "chain_ok a \<and> ptr \<noteq> NULL \<and> new_size \<noteq> 0 \<and>
    realloc_walk ptr (align_up old_size ARENA_ALIGNMENT)
      (align_up new_size ARENA_ALIGNMENT) (chain a) = None \<and>
    alloc_fits h a (align_up new_size ARENA_ALIGNMENT) \<and>
    fst (arena_realloc h a m ptr old_size new_size) \<noteq> NULL"
  then have r: "fst (arena_realloc h a m ptr old_size new_size) =
      fst (arena_alloc h a (align_up new_size ARENA_ALIGNMENT))"
    "fst (snd (arena_realloc h a m ptr old_size new_size)) =
      snd (arena_alloc h a (align_up new_size ARENA_ALIGNMENT))"
    by (simp_all add: realloc_copy_result)
  from c have "fst (arena_alloc h a (align_up new_size ARENA_ALIGNMENT)) \<noteq> NULL"
    by (simp add: r(1))
  with c have "carved_from_tail a (fst (arena_alloc h a (align_up new_size ARENA_ALIGNMENT)))
      (align_up new_size ARENA_ALIGNMENT) (snd (arena_alloc h a (align_up new_size ARENA_ALIGNMENT)))"
    by (simp add: alloc_carved)
  then show "carved_from_tail a (fst (arena_realloc h a m ptr old_size new_size))
      (align_up new_size ARENA_ALIGNMENT)
      (fst (snd (arena_realloc h a m ptr old_size new_size)))"
    by (simp only: r)
next
  assume "ptr \<noteq> NULL \<and> new_size \<noteq> 0 \<and>
    realloc_walk ptr (align_up old_size ARENA_ALIGNMENT)
      (align_up new_size ARENA_ALIGNMENT) (chain a) \<noteq> None \<and>
    unat ptr + unat (align_up old_size ARENA_ALIGNMENT) < 2 ^ 64 \<and>
    (containing_block ptr (butlast (chain a)) = None \<or>
     align_up new_size ARENA_ALIGNMENT \<le> align_up old_size ARENA_ALIGNMENT)"
  then have c: "ptr \<noteq> NULL" "new_size \<noteq> 0"
    "realloc_walk ptr (align_up old_size ARENA_ALIGNMENT)
      (align_up new_size ARENA_ALIGNMENT) (chain a) \<noteq> None"
    "unat ptr + unat (align_up old_size ARENA_ALIGNMENT) < 2 ^ 64"
    "containing_block ptr (butlast (chain a)) = None \<or>
     align_up new_size ARENA_ALIGNMENT \<le> align_up old_size ARENA_ALIGNMENT"
    by simp_all
  from c show "fst (arena_realloc h a m ptr old_size new_size) = ptr"
    by (rule realloc_in_place_frame)
  from c show "list_all2 (\<lambda>b b'. span b' = span b \<and> bump b' \<le> bump b) (butlast (chain a))
      (butlast (chain (fst (snd (arena_realloc h a m ptr old_size new_size)))))"
    by (rule realloc_in_place_frame)
qed

text \<open>
  In the chain of a full-enough 64-byte root and a second block, \<^verbatim>\<open>alloc(24)\<close>
  returns the bump of the second block and leaves the root as it was.
\<close>

theorem tail_only_allocation_witness:
  "chain_ok two_blocks \<and> alloc_fits (heap_at 0x300000) two_blocks 24 \<and>
   arena_alloc (heap_at 0x300000) two_blocks 24 =
     (0x200068, two_blocks\<lparr>rest := [\<lparr>base = 0x200000, bump = 0x200080, end_p = 0x300000\<rparr>]\<rparr>) \<and>
   carved_from_tail two_blocks 0x200068 24
     (two_blocks\<lparr>rest := [\<lparr>base = 0x200000, bump = 0x200080, end_p = 0x300000\<rparr>]\<rparr>) \<and>
   butlast (chain (two_blocks\<lparr>rest := [\<lparr>base = 0x200000, bump = 0x200080, end_p = 0x300000\<rparr>]\<rparr>)) =
     butlast (chain two_blocks)"
proof -
  have al: "arena_alloc (heap_at 0x300000) two_blocks 24 =
      (0x200068, two_blocks\<lparr>rest := [\<lparr>base = 0x200000, bump = 0x200080, end_p = 0x300000\<rparr>]\<rparr>)"
    by (simp add: heap_at_def two_blocks_def align_up_def ARENA_ALIGNMENT_def
        arena_alloc_def set_last_block_def)
  have f: "alloc_fits (heap_at 0x300000) two_blocks 24"
    by (simp add: alloc_fits_def alloc_safe_def request_fits_def address_fits_def reply_fits_def heap_at_def two_blocks_def
        align_up_def ARENA_ALIGNMENT_def new_block_size_def ARENA_DEFAULT_SIZE_def
        capacity_def total_capacity_def chain_def)
  have ok: "chain_ok two_blocks"
    by (simp add: chain_ok_def chain_def two_blocks_def block_ok_def)
  have b: "butlast (chain (two_blocks\<lparr>rest := [\<lparr>base = 0x200000, bump = 0x200080, end_p = 0x300000\<rparr>]\<rparr>)) =
      butlast (chain two_blocks)"
    by (simp add: chain_def two_blocks_def)
  show ?thesis
    using tail_only_allocation [where h = "heap_at 0x300000" and a = two_blocks and n = 24,
        THEN conjunct1] f ok
    by (simp add: al b)
qed

text \<open>
  C10 as stated fails, in two ways. By design, \<^verbatim>\<open>arena_realloc\<close> grows a region where
  it is when it is the last one of its block, also when that block is not the last
  one of the chain: in the chain of two blocks that
  \<^verbatim>\<open>create(64); alloc(32); push; alloc(104); push\<close> leads to, \<^verbatim>\<open>realloc(p, 32, 48)\<close> of
  the region at the base of the root moves the bump of the root from \<open>0x1020\<close> to
  \<open>0x1030\<close>: 16 bytes of free space of a block that is not the last one are used.
  And a request of \<open>2 ^ 64 - 1\<close> bytes is rounded to 0 bytes and succeeds; the region
  of the requested size that starts at the returned address does not lie inside the
  block.
\<close>

theorem tail_only_allocation_counterexample:
  "reach any_call two_blocks \<and>
   chain two_blocks =
     [\<lparr>base = 0x1000, bump = 0x1020, end_p = 0x1040\<rparr>,
      \<lparr>base = 0x200000, bump = 0x200068, end_p = 0x300000\<rparr>] \<and>
   arena_realloc (heap_at 0x400000) two_blocks zero_memory 0x1000 32 48 =
     (0x1000, two_blocks\<lparr>root := \<lparr>base = 0x1000, bump = 0x1030, end_p = 0x1040\<rparr>\<rparr>, zero_memory) \<and>
   chain (two_blocks\<lparr>root := \<lparr>base = 0x1000, bump = 0x1030, end_p = 0x1040\<rparr>\<rparr>) =
     [\<lparr>base = 0x1000, bump = 0x1030, end_p = 0x1040\<rparr>,
      \<lparr>base = 0x200000, bump = 0x200068, end_p = 0x300000\<rparr>] \<and>
   \<not> (0x1030 :: addr) \<le> 0x1020 \<and>
   arena_alloc (heap_at 0x100000) arena64 0xFFFFFFFFFFFFFFFF = (0x1000, arena64) \<and>
   (0x1000 :: addr) \<noteq> NULL \<and>
   last (chain arena64) = \<lparr>base = 0x1000, bump = 0x1000, end_p = 0x1040\<rparr> \<and>
   \<not> unat (0x1000 :: addr) + unat (0xFFFFFFFFFFFFFFFF :: size_t) \<le> unat (0x1040 :: addr)"
proof -
  have "arena_realloc (heap_at 0x400000) two_blocks zero_memory 0x1000 32 48 =
     (0x1000, two_blocks\<lparr>root := \<lparr>base = 0x1000, bump = 0x1030, end_p = 0x1040\<rparr>\<rparr>, zero_memory)"
    by (simp add: heap_at_def two_blocks_def align_up_def ARENA_ALIGNMENT_def
        arena_realloc_def chain_def)
  moreover have "arena_alloc (heap_at 0x100000) arena64 0xFFFFFFFFFFFFFFFF = (0x1000, arena64)"
    by (simp add: heap_at_def arena64_def align_up_def ARENA_ALIGNMENT_def
        arena_alloc_def set_last_block_def)
  moreover have "chain two_blocks =
     [\<lparr>base = 0x1000, bump = 0x1020, end_p = 0x1040\<rparr>,
      \<lparr>base = 0x200000, bump = 0x200068, end_p = 0x300000\<rparr>]"
    "chain (two_blocks\<lparr>root := \<lparr>base = 0x1000, bump = 0x1030, end_p = 0x1040\<rparr>\<rparr>) =
     [\<lparr>base = 0x1000, bump = 0x1030, end_p = 0x1040\<rparr>,
      \<lparr>base = 0x200000, bump = 0x200068, end_p = 0x300000\<rparr>]"
    "last (chain arena64) = \<lparr>base = 0x1000, bump = 0x1000, end_p = 0x1040\<rparr>"
    by (simp_all add: chain_def two_blocks_def arena64_def)
  ultimately show ?thesis
    using reach_two_blocks by simp
qed
section \<open>Rewinding to a marker\<close>

text \<open>
  C1, amended. In an arena that is well-formed when the marker is pushed (all bumps
  in range, total capacity below \<open>2 ^ 64\<close>: the state \<open>a\<close> that the allocations
  before the push have led to), after a \<^verbatim>\<open>arena_push_marker\<close> that records its
  marker, any allocations (\<^verbatim>\<open>alloc\<close>, \<^verbatim>\<open>calloc\<close>, \<^verbatim>\<open>realloc\<close>, \<^verbatim>\<open>strdup\<close>) and a
  \<^verbatim>\<open>arena_pop_marker\<close>, the global position is the position before the push and the
  marker stack is the stack before the push. The next \<^verbatim>\<open>arena_alloc\<close>, when its
  rounded size fits behind the bump of the last block, returns that bump, whose global
  offset is that position.
\<close>

theorem rewind_exactness:
  fixes a h cs m h' n
  defines "a1 \<equiv> arena_push_marker h a"
  defines "a2 \<equiv> fst (run_calls cs (a1, m))"
  defines "a3 \<equiv> arena_pop_marker a2"
  assumes "arena_ok a"
    and "length (markers a) \<noteq> unat (marker_cap a) \<or> marks_ok h"
    and "list_all (\<lambda>(h, c). is_allocation c) cs"
  shows "get_current_position a3 = get_current_position a \<and>
         markers a3 = markers a \<and>
         (n \<noteq> 0 \<and> bump (last (chain a3)) + align_up n ARENA_ALIGNMENT \<le> end_p (last (chain a3)) \<longrightarrow>
            fst (arena_alloc h' a3 n) = bump (last (chain a3)) \<and>
            global_offset (snd (arena_alloc h' a3 n)) (fst (arena_alloc h' a3 n)) =
              get_current_position a)"
proof -
  let ?g = "get_current_position a"
  from assms(5) have m1: "markers a1 = markers a @ [?g]"
    unfolding a1_def by (rule push_marker_recorded)
  have c1: "chain a1 = chain a"
    by (simp add: a1_def)
  from assms(6) have m2: "markers a2 = markers a1"
    and s2: "prefix (map span (chain a1)) (map span (chain a2))"
    unfolding a2_def using allocation_calls [of cs a1 m] by simp_all
  from m1 m2 have top: "markers a2 \<noteq> []" "last (markers a2) = ?g" "butlast (markers a2) = markers a"
    by simp_all
  from assms(4) have "unat ?g \<le> total_capacity a"
    by (rule position_le_capacity)
  with assms(4) s2 top(1,2) have pos: "get_current_position a3 = ?g"
    unfolding a3_def c1 using pop_marker_position [of a a2] by simp
  have ms: "markers a3 = markers a"
    by (simp add: a3_def markers_pop_marker top(3))
  have "fst (arena_alloc h' a3 n) = bump (last (chain a3)) \<and>
      global_offset (snd (arena_alloc h' a3 n)) (fst (arena_alloc h' a3 n)) = ?g"
    if "n \<noteq> 0" "bump (last (chain a3)) + align_up n ARENA_ALIGNMENT \<le> end_p (last (chain a3))"
    using global_offset_in_tail [OF that, of h'] pos by simp
  with pos ms show ?thesis
    by blast
qed


theorem rewind_exactness_witness:
  "arena_ok two_blocks \<and> length (markers two_blocks) \<noteq> unat (marker_cap two_blocks) \<and>
   list_all (\<lambda>(h, c). is_allocation c)
     [(heap_at 0x400000, Alloc 24), (heap_at 0x400000, Strdup (Some [104, 105]))] \<and>
   get_current_position two_blocks = 168 \<and>
   arena_pop_marker (fst (run_calls
     [(heap_at 0x400000, Alloc 24), (heap_at 0x400000, Strdup (Some [104, 105]))]
     (arena_push_marker (heap_at 0x400000) two_blocks, zero_memory))) = two_blocks \<and>
   (8 :: size_t) \<noteq> 0 \<and>
   bump (last (chain two_blocks)) + align_up 8 ARENA_ALIGNMENT \<le> end_p (last (chain two_blocks)) \<and>
   fst (arena_alloc (heap_at 0x400000) two_blocks 8) = 0x200068 \<and>
   global_offset (snd (arena_alloc (heap_at 0x400000) two_blocks 8))
     (fst (arena_alloc (heap_at 0x400000) two_blocks 8)) = 168"
proof -
  have ok: "arena_ok two_blocks"
    by (simp add: arena_ok_def chain_ok_def chain_def two_blocks_def block_ok_def
        total_capacity_def capacity_def)
  have room: "length (markers two_blocks) \<noteq> unat (marker_cap two_blocks)"
    by (simp add: two_blocks_def)
  have pos: "get_current_position two_blocks = 168"
    by (simp add: get_current_position_def two_blocks_def)
  have restored: "arena_pop_marker (fst (run_calls
      [(heap_at 0x400000, Alloc 24), (heap_at 0x400000, Strdup (Some [104, 105]))]
      (arena_push_marker (heap_at 0x400000) two_blocks, zero_memory))) = two_blocks"
    by (simp add: heap_at_def two_blocks_def align_up_def ARENA_ALIGNMENT_def
        arena_alloc_def arena_strdup_def set_last_block_def get_current_position_def
        arena_push_marker_def arena_pop_marker_def)
  have fits: "bump (last (chain two_blocks)) + align_up 8 ARENA_ALIGNMENT
      \<le> end_p (last (chain two_blocks))"
    by (simp add: chain_def two_blocks_def align_up_def ARENA_ALIGNMENT_def)
  have tail: "bump (last (chain two_blocks)) = 0x200068"
    by (simp add: chain_def two_blocks_def)
  show ?thesis
    using rewind_exactness [where a = two_blocks and h = "heap_at 0x400000" and m = zero_memory
        and cs = "[(heap_at 0x400000, Alloc 24), (heap_at 0x400000, Strdup (Some [104, 105]))]"
        and h' = "heap_at 0x400000" and n = 8]
      ok room fits
    by (auto simp add: pos restored tail simp del: run_calls.simps run_call.simps)
qed

text \<open>
  C1 as stated fails for the allocation after the pop: after \<^verbatim>\<open>alloc(32)\<close>, push,
  \<^verbatim>\<open>alloc(8)\<close>, pop in a block of 64 bytes the position is 32 again, but
  \<^verbatim>\<open>alloc(100)\<close> does not fit behind it and returns the start of a new block, at
  global offset 64.
\<close>

theorem rewind_exactness_counterexample:
  "arena_alloc (heap_at 0x100000) arena64 32 = (0x1000, used32) \<and>
   get_current_position used32 = 32 \<and>
   arena_push_marker (heap_at 0x100000) used32 = used32\<lparr>markers := [32]\<rparr> \<and>
   arena_alloc (heap_at 0x100000) (used32\<lparr>markers := [32]\<rparr>) 8 =
     (0x1020, used32\<lparr>markers := [32], root := \<lparr>base = 0x1000, bump = 0x1028, end_p = 0x1040\<rparr>\<rparr>) \<and>
   arena_pop_marker
     (used32\<lparr>markers := [32], root := \<lparr>base = 0x1000, bump = 0x1028, end_p = 0x1040\<rparr>\<rparr>) = used32 \<and>
   arena_alloc (heap_at 0x100000) used32 100 =
     (0x100000, used32\<lparr>rest := [\<lparr>base = 0x100000, bump = 0x100068, end_p = 0x200000\<rparr>]\<rparr>) \<and>
   global_offset (used32\<lparr>rest := [\<lparr>base = 0x100000, bump = 0x100068, end_p = 0x200000\<rparr>]\<rparr>)
     0x100000 = 64"
  by (simp add: heap_at_def arena64_def used32_def align_up_def ARENA_ALIGNMENT_def
      arena_alloc_def set_last_block_def get_current_position_def arena_push_marker_def
      arena_pop_marker_def global_offset_def new_block_size_def ARENA_DEFAULT_SIZE_def)

section \<open>The order of the marker stack\<close>

text \<open>
  C4, amended. In every arena state that \<^verbatim>\<open>arena_create\<close> and public operations
  lead to, when no address arithmetic wraps around and no \<^verbatim>\<open>arena_realloc\<close> shrinks,
  where it is, the last allocation of the last block of the chain to an end below the
  marker on top of the stack (\<open>shrinks_below_marker\<close>; every other
  \<^verbatim>\<open>arena_realloc\<close>, shrinking or not, is among the operations), the marker stack is
  non-decreasing from bottom to top and every marker is at most the total capacity of
  the chain. In every state reached without wrap-around (these shrinking calls
  included) the position, which is what \<^verbatim>\<open>arena_push_marker\<close> stores, is at most
  the total capacity of the chain.
\<close>

theorem marker_stack_monotone:
  "(reach_unshrunk a \<longrightarrow>
      sorted (markers a) \<and> (\<forall>g \<in> set (markers a). unat g \<le> total_capacity a)) \<and>
   (reach any_call a \<longrightarrow>
      unat (get_current_position a) \<le> total_capacity a \<and>
      (markers (arena_push_marker h a) = markers a \<or>
       markers (arena_push_marker h a) = markers a @ [get_current_position a]))"
proof (intro conjI impI)
  assume r: "reach_unshrunk a"
  then show "sorted (markers a)"
    using reach_markers by blast
  from r have "reach any_call a"
    by (rule reach_unshrunk_reach)
  then have "arena_ok a"
    by (rule reach_arena_ok)
  then have "unat (get_current_position a) \<le> total_capacity a"
    by (rule position_le_capacity)
  moreover from r have "\<forall>g \<in> set (markers a). unat g \<le> unat (get_current_position a)"
    using reach_markers [of a] by (simp add: word_le_nat_alt)
  ultimately show "\<forall>g \<in> set (markers a). unat g \<le> total_capacity a"
    by fastforce
next
  assume "reach any_call a"
  then have "arena_ok a"
    by (rule reach_arena_ok)
  then show "unat (get_current_position a) \<le> total_capacity a"
    by (rule position_le_capacity)
next
  show "markers (arena_push_marker h a) = markers a \<or>
      markers (arena_push_marker h a) = markers a @ [get_current_position a]"
    by (auto simp: arena_push_marker_def Let_def)
qed

text \<open>
  The run \<^verbatim>\<open>create(64); alloc(16); push; q = alloc(16); realloc(q, 16, 8); push;
  realloc(p, 16, 8); push\<close>. The first \<^verbatim>\<open>arena_realloc\<close> shrinks the last allocation
  of the last block where it is, from the position 32 to 24, above the marker 16. The
  second asks for less than the region has, the region is not the last one of its
  block, so it is copied and the position rises from 24 to 32. The stack is
  \<open>[16, 24, 32]\<close>.
\<close>

theorem marker_stack_monotone_witness:
  "reach_unshrunk (marked 0x1020 [16, 24, 32]) \<and>
   reach any_call (marked 0x1020 [16, 24, 32]) \<and>
   shrinks_tail (marked 0x1020 [16]) (Realloc 0x1010 16 8) \<and>
   fst (run_call (heap_at 0x100000) (Realloc 0x1010 16 8) (marked 0x1020 [16], zero_memory)) =
     marked 0x1018 [16] \<and>
   align_up 8 ARENA_ALIGNMENT < align_up 16 ARENA_ALIGNMENT \<and>
   fst (run_call (heap_at 0x100000) (Realloc 0x1000 16 8) (marked 0x1018 [16, 24], zero_memory)) =
     marked 0x1020 [16, 24] \<and>
   markers (marked 0x1020 [16, 24, 32]) = [16, 24, 32] \<and>
   sorted (markers (marked 0x1020 [16, 24, 32])) \<and>
   unat (16 :: size_t) \<le> total_capacity (marked 0x1020 [16, 24, 32]) \<and>
   unat (24 :: size_t) \<le> total_capacity (marked 0x1020 [16, 24, 32]) \<and>
   unat (32 :: size_t) \<le> total_capacity (marked 0x1020 [16, 24, 32]) \<and>
   unat (get_current_position (marked 0x1020 [16, 24, 32]))
     \<le> total_capacity (marked 0x1020 [16, 24, 32]) \<and>
   markers (arena_push_marker (heap_at 0x100000) (marked 0x1020 [16, 24, 32])) =
     [16, 24, 32, 32]"
proof -
  have r1: "reach_unshrunk (marked 0x1020 [16, 24, 32])"
    by (rule reach_marked)
  then have r2: "reach any_call (marked 0x1020 [16, 24, 32])"
    by (rule reach_unshrunk_reach)
  have less: "align_up 8 ARENA_ALIGNMENT < align_up 16 ARENA_ALIGNMENT"
    by (simp add: align_up_def ARENA_ALIGNMENT_def)
  have m: "markers (marked 0x1020 [16, 24, 32]) = [16, 24, 32]"
    by (simp add: marked_def)
  have push: "markers (arena_push_marker (heap_at 0x100000) (marked 0x1020 [16, 24, 32])) =
      [16, 24, 32, 32]"
    by (simp add: arena_push_marker_def marked_def get_current_position_def)
  have shrink: "fst (snd (arena_realloc (heap_at 0x100000) (marked 0x1020 [16])
      zero_memory 0x1010 16 8)) = marked 0x1018 [16]"
    using shrinking_in_place(4) by simp
  have copy: "fst (snd (arena_realloc (heap_at 0x100000) (marked 0x1018 [16, 24])
      zero_memory 0x1000 16 8)) = marked 0x1020 [16, 24]"
    using shrinking_copy(3) by simp
  show ?thesis
    using marker_stack_monotone [of "marked 0x1020 [16, 24, 32]" "heap_at 0x100000"] r1 r2
    by (simp add: push m less shrink copy shrinking_in_place(1))
qed

text \<open>
  C4 as stated fails: after \<^verbatim>\<open>alloc(16)\<close> and a push at position 16, shrinking that
  allocation in place with \<^verbatim>\<open>realloc(p, 16, 8)\<close> lowers the position to 8, and the
  next push stores 8 above 16. The region is the last one of the last block and its
  new end, at the global offset 8, lies below the marker 16: the call is what
  \<open>shrinks_below_marker\<close> describes.
\<close>

theorem marker_stack_monotone_counterexample:
  "arena_create (heap_at 0x1000) 64 = Some arena64 \<and>
   arena_alloc (heap_at 0x100000) arena64 16 =
     (0x1000, arena64\<lparr>root := \<lparr>base = 0x1000, bump = 0x1010, end_p = 0x1040\<rparr>\<rparr>) \<and>
   arena_push_marker (heap_at 0x100000)
       (arena64\<lparr>root := \<lparr>base = 0x1000, bump = 0x1010, end_p = 0x1040\<rparr>\<rparr>) =
     arena64\<lparr>root := \<lparr>base = 0x1000, bump = 0x1010, end_p = 0x1040\<rparr>, markers := [16]\<rparr> \<and>
   shrinks_below_marker
       (arena64\<lparr>root := \<lparr>base = 0x1000, bump = 0x1010, end_p = 0x1040\<rparr>, markers := [16]\<rparr>)
       (Realloc 0x1000 16 8) \<and>
   arena_realloc (heap_at 0x100000)
       (arena64\<lparr>root := \<lparr>base = 0x1000, bump = 0x1010, end_p = 0x1040\<rparr>, markers := [16]\<rparr>)
       zero_memory 0x1000 16 8 =
     (0x1000,
      arena64\<lparr>root := \<lparr>base = 0x1000, bump = 0x1008, end_p = 0x1040\<rparr>, markers := [16]\<rparr>,
      zero_memory) \<and>
   arena_push_marker (heap_at 0x100000)
       (arena64\<lparr>root := \<lparr>base = 0x1000, bump = 0x1008, end_p = 0x1040\<rparr>, markers := [16]\<rparr>) =
     arena64\<lparr>root := \<lparr>base = 0x1000, bump = 0x1008, end_p = 0x1040\<rparr>, markers := [16, 8]\<rparr> \<and>
   \<not> sorted [16, 8 :: size_t]"
  by (simp add: create64)
    (simp add: heap_at_def arena64_def align_up_def ARENA_ALIGNMENT_def arena_alloc_def
      set_last_block_def arena_push_marker_def get_current_position_def arena_realloc_def
      shrinks_below_marker_def shrinks_tail_def last_in_block_def global_offset_def chain_def)
section \<open>Reallocation in place or by copy\<close>

text \<open>
  C2, amended. For a pointer that is not \<open>NULL\<close> and a new size that is not 0,
  \<^verbatim>\<open>arena_realloc\<close> resizes in place (it returns the pointer, sets the bump of the
  containing block to the pointer plus the rounded new size, and leaves everything else,
  the memory included) exactly when the pointer plus the rounded old size equals the bump
  of the first block whose span contains the pointer and that block has room for the new
  size. In every other case it returns what \<^verbatim>\<open>arena_alloc\<close> of the rounded new size
  returns, leaves the arena it leaves, and copies the smaller of the two rounded sizes;
  for a live old region in a well-formed chain of blocks that do not overlap, without
  wrap-around, the first \<open>min old_size new_size\<close> bytes of the result are the bytes of the
  old region.
\<close>

theorem in_place_realloc:
  fixes h a m p old_size new_size
  defines "old \<equiv> align_up old_size ARENA_ALIGNMENT"
    and "new \<equiv> align_up new_size ARENA_ALIGNMENT"
  defines "q \<equiv> fst (arena_alloc h a new)"
  assumes "p \<noteq> NULL" and "new_size \<noteq> 0"
  shows "(last_in_block a p old_size \<and> has_room a p old_size new_size \<longrightarrow>
            arena_realloc h a m p old_size new_size =
              (p, with_chain a (resize_in p (p + new) (chain a)), m)) \<and>
         (\<not> (last_in_block a p old_size \<and> has_room a p old_size new_size) \<longrightarrow>
            arena_realloc h a m p old_size new_size =
              (q, snd (arena_alloc h a new),
               if q \<noteq> NULL then memcpy m q p (if old < new then old else new) else m)) \<and>
         (\<not> (last_in_block a p old_size \<and> has_room a p old_size new_size) \<and> q \<noteq> NULL \<and>
          chain_ok a \<and> blocks_apart a \<and> live_region a p old \<and>
          unat old_size + 7 < 2 ^ 64 \<and> unat new_size + 7 < 2 ^ 64 \<and>
          call_fits h a (Realloc p old_size new_size) \<and> reply_apart h a new \<and>
          i < min (unat old_size) (unat new_size) \<longrightarrow>
            snd (snd (arena_realloc h a m p old_size new_size)) (q + of_nat i) = m (p + of_nat i))"
proof (intro conjI impI)
  assume "last_in_block a p old_size \<and> has_room a p old_size new_size"
  with assms(4,5) show "arena_realloc h a m p old_size new_size =
      (p, with_chain a (resize_in p (p + new) (chain a)), m)"
    unfolding new_def by (intro realloc_in_place) simp_all
next
  assume "\<not> (last_in_block a p old_size \<and> has_room a p old_size new_size)"
  with assms(4,5) show "arena_realloc h a m p old_size new_size =
      (q, snd (arena_alloc h a new),
       if q \<noteq> NULL then memcpy m q p (if old < new then old else new) else m)"
    unfolding q_def old_def new_def by (rule realloc_copy)
next
  assume hyp: "\<not> (last_in_block a p old_size \<and> has_room a p old_size new_size) \<and> q \<noteq> NULL \<and>
      chain_ok a \<and> blocks_apart a \<and> live_region a p old \<and>
      unat old_size + 7 < 2 ^ 64 \<and> unat new_size + 7 < 2 ^ 64 \<and>
      call_fits h a (Realloc p old_size new_size) \<and> reply_apart h a new \<and>
      i < min (unat old_size) (unat new_size)"
  let ?c = "if old < new then old else new"
  from hyp assms(4,5) have fits: "unat old_size + 7 < 2 ^ 64" "unat new_size + 7 < 2 ^ 64"
    "unat p + unat old < 2 ^ 64" "alloc_fits h a new"
    by (simp_all add: old_def new_def alloc_safe_rounded)
  have c: "unat ?c = min (unat old) (unat new)"
    by (simp add: word_less_nat_alt min_def)
  from fits(1,2) have "unat old_size \<le> unat old" "unat new_size \<le> unat new"
    unfolding old_def new_def by (simp_all add: align_up_ge)
  with hyp have i: "i < unat ?c"
    by (simp add: c)
  have "align_up new ARENA_ALIGNMENT = new"
    unfolding new_def by (rule align_up_idem)
  then have "unat ?c \<le> unat (align_up new ARENA_ALIGNMENT)"
    by (simp add: c)
  moreover have "unat ?c \<le> unat old"
    by (simp add: c)
  ultimately have region:
    "(unat p + unat ?c \<le> unat q \<or> unat q + unat ?c \<le> unat p) \<and> unat q + unat ?c < 2 ^ 64"
    using hyp fits(4) unfolding q_def
    by (intro fresh_region_apart [where old = old]) simp_all
  moreover from fits(3) have "unat p + unat ?c \<le> 2 ^ 64"
    by (simp add: c)
  ultimately have "memcpy m q p ?c (q + of_nat i) = m (p + of_nat i)"
    using i by (intro memcpy_at) simp_all
  moreover from hyp assms(4,5) have "arena_realloc h a m p old_size new_size =
      (q, snd (arena_alloc h a new), if q \<noteq> NULL then memcpy m q p ?c else m)"
    unfolding q_def old_def new_def by (intro realloc_copy) simp_all
  ultimately show "snd (snd (arena_realloc h a m p old_size new_size)) (q + of_nat i) =
      m (p + of_nat i)"
    using hyp by simp
qed


theorem in_place_realloc_witness:
  "(0x1000 :: addr) \<noteq> NULL \<and> (16 :: size_t) \<noteq> 0 \<and> (100 :: size_t) \<noteq> 0 \<and>
   last_in_block used32 0x1000 32 \<and> has_room used32 0x1000 32 16 \<and>
   arena_realloc (heap_at 0x400000) used32 zero_memory 0x1000 32 16 =
     (0x1000, used32\<lparr>root := \<lparr>base = 0x1000, bump = 0x1010, end_p = 0x1040\<rparr>\<rparr>, zero_memory) \<and>
   last_in_block two_blocks 0x1000 32 \<and> \<not> has_room two_blocks 0x1000 32 100 \<and>
   fst (arena_alloc (heap_at 0x400000) two_blocks (align_up 100 ARENA_ALIGNMENT)) = 0x200068 \<and>
   chain_ok two_blocks \<and> blocks_apart two_blocks \<and>
   live_region two_blocks 0x1000 (align_up 32 ARENA_ALIGNMENT) \<and>
   unat (32 :: size_t) + 7 < 2 ^ 64 \<and> unat (100 :: size_t) + 7 < 2 ^ 64 \<and>
   call_fits (heap_at 0x400000) two_blocks (Realloc 0x1000 32 100) \<and>
   reply_apart (heap_at 0x400000) two_blocks (align_up 100 ARENA_ALIGNMENT) \<and>
   (5 :: nat) < min (unat (32 :: size_t)) (unat (100 :: size_t)) \<and>
   fst (arena_realloc (heap_at 0x400000) two_blocks (zero_memory(0x1005 := 7)) 0x1000 32 100) =
     0x200068 \<and>
   snd (snd (arena_realloc (heap_at 0x400000) two_blocks (zero_memory(0x1005 := 7)) 0x1000 32 100))
     0x20006D = 7"
proof -
  have lib1: "last_in_block used32 0x1000 32" and room1: "has_room used32 0x1000 32 16"
    by (simp_all add: last_in_block_def has_room_def chain_def used32_def align_up_def
        ARENA_ALIGNMENT_def)
  have chain1: "with_chain used32 (resize_in 0x1000 (0x1000 + align_up 16 ARENA_ALIGNMENT)
      (chain used32)) = used32\<lparr>root := \<lparr>base = 0x1000, bump = 0x1010, end_p = 0x1040\<rparr>\<rparr>"
    by (simp add: with_chain_def chain_def used32_def align_up_def ARENA_ALIGNMENT_def)
  have lib2: "last_in_block two_blocks 0x1000 32" and room2: "\<not> has_room two_blocks 0x1000 32 100"
    by (simp_all add: last_in_block_def has_room_def chain_def two_blocks_def align_up_def
        ARENA_ALIGNMENT_def)
  have q: "fst (arena_alloc (heap_at 0x400000) two_blocks (align_up 100 ARENA_ALIGNMENT)) = 0x200068"
    by (simp add: heap_at_def two_blocks_def align_up_def ARENA_ALIGNMENT_def
        arena_alloc_def set_last_block_def)
  have ok: "chain_ok two_blocks"
    by (simp add: chain_ok_def chain_def two_blocks_def block_ok_def)
  have ap: "blocks_apart two_blocks"
    by (simp add: blocks_apart_def pairwise_def chain_def two_blocks_def apart_def)
  have live: "live_region two_blocks 0x1000 (align_up 32 ARENA_ALIGNMENT)"
    by (simp add: live_region_def chain_def two_blocks_def align_up_def ARENA_ALIGNMENT_def)
  have fits: "call_fits (heap_at 0x400000) two_blocks (Realloc 0x1000 32 100)"
    by (simp add: alloc_fits_def alloc_safe_def request_fits_def address_fits_def reply_fits_def heap_at_def two_blocks_def
        align_up_def ARENA_ALIGNMENT_def new_block_size_def ARENA_DEFAULT_SIZE_def
        capacity_def total_capacity_def chain_def)
  have reply: "reply_apart (heap_at 0x400000) two_blocks (align_up 100 ARENA_ALIGNMENT)"
    by (simp add: reply_apart_def heap_at_def two_blocks_def align_up_def ARENA_ALIGNMENT_def
        new_block_size_def ARENA_DEFAULT_SIZE_def capacity_def chain_def apart_def)
  note first = in_place_realloc [where a = used32 and p = "0x1000" and old_size = 32
      and new_size = 16 and h = "heap_at 0x400000" and m = zero_memory, THEN conjunct1]
  note both = in_place_realloc [where a = two_blocks and p = "0x1000" and old_size = 32
      and new_size = 100 and h = "heap_at 0x400000" and m = "zero_memory(0x1005 := 7)"
      and i = 5]
  note second = both [THEN conjunct2, THEN conjunct1]
  note third = both [THEN conjunct2, THEN conjunct2]
  from first lib1 room1 have r1: "arena_realloc (heap_at 0x400000) used32 zero_memory 0x1000 32 16 =
      (0x1000, used32\<lparr>root := \<lparr>base = 0x1000, bump = 0x1010, end_p = 0x1040\<rparr>\<rparr>, zero_memory)"
    by (simp add: chain1)
  from second room2 have r2:
    "fst (arena_realloc (heap_at 0x400000) two_blocks (zero_memory(0x1005 := 7)) 0x1000 32 100) =
       0x200068"
    by (simp add: q)
  from third room2 ok ap live fits reply have r3:
    "snd (snd (arena_realloc (heap_at 0x400000) two_blocks (zero_memory(0x1005 := 7)) 0x1000 32 100))
       0x20006D = 7"
    by (simp add: q)
  from lib1 room1 r1 lib2 room2 q ok ap live fits reply r2 r3 show ?thesis
    by simp
qed

text \<open>
  C2 as stated fails: a region of 32 bytes that ends at the bump of its 64-byte block
  cannot grow to 100 bytes there; \<^verbatim>\<open>arena_realloc\<close> allocates a new region in a new
  block and copies, although the pointer plus the old size equals the bump.
\<close>

theorem in_place_realloc_counterexample:
  "base (root used32) \<le> 0x1000 \<and> 0x1000 < end_p (root used32) \<and>
   0x1000 + align_up 32 ARENA_ALIGNMENT = bump (root used32) \<and>
   arena_realloc (heap_at 0x100000) used32 zero_memory 0x1000 32 100 =
     (0x100000,
      used32\<lparr>rest := [\<lparr>base = 0x100000, bump = 0x100068, end_p = 0x200000\<rparr>]\<rparr>,
      memcpy zero_memory 0x100000 0x1000 32)"
proof -
  have al: "arena_alloc (heap_at 0x100000) used32 104 =
      (0x100000, used32\<lparr>rest := [\<lparr>base = 0x100000, bump = 0x100068, end_p = 0x200000\<rparr>]\<rparr>)"
    by (simp add: heap_at_def used32_def align_up_def ARENA_ALIGNMENT_def arena_alloc_def
        new_block_size_def ARENA_DEFAULT_SIZE_def)
  have a32: "align_up 32 ARENA_ALIGNMENT = 32" and a100: "align_up 100 ARENA_ALIGNMENT = 104"
    by (simp_all add: align_up_def ARENA_ALIGNMENT_def)
  have "\<not> has_room used32 0x1000 32 100"
    by (simp add: has_room_def chain_def used32_def a32 a100)
  then have "arena_realloc (heap_at 0x100000) used32 zero_memory 0x1000 32 100 =
      (0x100000,
       used32\<lparr>rest := [\<lparr>base = 0x100000, bump = 0x100068, end_p = 0x200000\<rparr>]\<rparr>,
       memcpy zero_memory 0x100000 0x1000 32)"
    using realloc_copy [of "0x1000" 100 used32 32 "heap_at 0x100000" zero_memory]
    by (simp add: a32 a100 al)
  then show ?thesis
    by (simp add: used32_def a32)
qed

section \<open>Reset and the edge cases of realloc\<close>

text \<open>
  C9. \<^verbatim>\<open>arena_realloc\<close> with \<open>new_size = 0\<close> returns \<open>NULL\<close> and leaves the
  arena (blocks, chain, markers) and the memory as they are; with a \<open>NULL\<close> pointer
  it returns what \<^verbatim>\<open>arena_alloc\<close> of \<open>new_size\<close> returns and leaves the arena that
  \<^verbatim>\<open>arena_alloc\<close> leaves.
\<close>

theorem realloc_edge_cases:
  "arena_realloc h a m ptr old_size 0 = (NULL, a, m) \<and>
   arena_realloc h a m NULL old_size new_size =
     (fst (arena_alloc h a new_size), snd (arena_alloc h a new_size), m)"
  by (simp add: arena_realloc_def arena_alloc_def split: prod.split)

text \<open>
  C6. After \<^verbatim>\<open>arena_reset\<close> the global position is 0, no marker remains, the root
  has no successor, and base, end and capacity of the root are what they were.
\<close>

theorem reset_totality:
  "get_current_position (arena_reset a) = 0 \<and>
   markers (arena_reset a) = [] \<and>
   rest (arena_reset a) = [] \<and>
   base (root (arena_reset a)) = base (root a) \<and>
   end_p (root (arena_reset a)) = end_p (root a) \<and>
   capacity (root (arena_reset a)) = capacity (root a)"
  by (simp add: arena_reset_def get_current_position_def capacity_def)

end
